theory Spec2Isabelle
  imports Complex_Main "HOL-Library.AList" "HOL-Library.Code_Target_Nat"
begin

section \<open>Arrays, errors and the external primitives\<close>

text \<open>
  The repository is Python over numpy arrays. An array is modelled by its shape and its
  elements in row-major order. Labels are unsigned 64-bit integers in the source; they are
  natural numbers here, and the one place where the source adds a large, block dependent
  offset to a label array (\<open>watershed_in_block\<close>) writes the wrap-around modulo \<open>2 ^ 64\<close>
  out. The seeds of the watershed are signed 32-bit integers in the source (the array that
  \<open>mahotas.label\<close> returns); they are integers here, with the wrap-around of the additions
  to them and of their conversion to labels written out. Affinities and distances are
  floating-point numbers in the source; they are rational numbers here, and nothing below
  depends on their rounding.
\<close>

datatype error =
  UnboundLocalError | IndexError | ValueError | StopIteration | AssertionError | ZeroDivisionError
  | KeyError | NetworkXError | AxisError | CastError

type_synonym label = nat

datatype 'a ndarray = NDArray (shape: "nat list") (data: "'a list")

definition map_nd :: "('a \<Rightarrow> 'b) \<Rightarrow> 'a ndarray \<Rightarrow> 'b ndarray" where
  "map_nd f A = NDArray (shape A) (map f (data A))"

definition map2_nd :: "('a \<Rightarrow> 'b \<Rightarrow> 'c) \<Rightarrow> 'a ndarray \<Rightarrow> 'b ndarray \<Rightarrow> 'c ndarray" where
  "map2_nd f A B = NDArray (shape A) (map (\<lambda>(a, b). f a b) (zip (data A) (data B)))"

text \<open>\<open>np.zeros(shape, dtype)\<close>.\<close>

definition zeros :: "nat list \<Rightarrow> 'a::zero ndarray" where
  "zeros sh = NDArray sh (replicate (prod_list sh) 0)"

text \<open>
  \<open>A[i]\<close>: the \<open>i\<close>-th sub-array along the first axis; numpy raises IndexError when the
  index is out of range.
\<close>

definition getitem :: "'a ndarray \<Rightarrow> nat \<Rightarrow> error + 'a ndarray" where
  "getitem A i =
     (case shape A of
        [] \<Rightarrow> Inl IndexError
      | d # sh \<Rightarrow>
          if i < d
          then Inr (NDArray sh (take (prod_list sh) (drop (i * prod_list sh) (data A))))
          else Inl IndexError)"

text \<open>
  \<open>A[i] = S\<close>: numpy raises IndexError when the index is out of range and ValueError when
  the shapes do not fit. Only a value of exactly the shape of \<open>A[i]\<close> is accepted here
  (numpy would also broadcast smaller shapes; the source never relies on that).
\<close>

definition setitem :: "'a ndarray \<Rightarrow> nat \<Rightarrow> 'a ndarray \<Rightarrow> error + 'a ndarray" where
  "setitem A i S =
     (case shape A of
        [] \<Rightarrow> Inl IndexError
      | d # sh \<Rightarrow>
          if \<not> i < d then Inl IndexError
          else if shape S \<noteq> sh \<or> length (data S) \<noteq> prod_list sh then Inl ValueError
          else Inr (NDArray (d # sh)
                 (take (i * prod_list sh) (data A) @ data S @
                  drop (Suc i * prod_list sh) (data A))))"

text \<open>\<open>A[:] = S\<close>: overwrite every element of \<open>A\<close>.\<close>

definition setall :: "'a ndarray \<Rightarrow> 'a ndarray \<Rightarrow> error + 'a ndarray" where
  "setall A S = (if shape S \<noteq> shape A then Inl ValueError else Inr (NDArray (shape A) (data S)))"

text \<open>
  \<open>np.mean(affs, axis=0)\<close>: the mean of the sub-arrays along the first axis; numpy raises
  AxisError on an array without axes.
\<close>

definition mean_axis0 :: "rat ndarray \<Rightarrow> error + rat ndarray" where
  "mean_axis0 A =
     (case shape A of
        [] \<Rightarrow> Inl AxisError
      | c # sh \<Rightarrow>
          let m = prod_list sh;
              channels = map (\<lambda>i. take m (drop (i * m) (data A))) [0..<c];
              total = foldr (\<lambda>channel acc. map (\<lambda>(a, b). a + b) (zip channel acc)) channels
                        (replicate m 0)
          in Inr (NDArray sh (map (\<lambda>t. t / of_nat c) total)))"

text \<open>
  An addition into a signed 32-bit array keeps the low 32 bits of the sum, and the
  conversion of a signed integer to an unsigned 64-bit label (\<open>astype(np.uint64)\<close>, or the
  assignment into a \<open>uint64\<close> array) its low 64 bits.
\<close>

definition wrap_int32 :: "int \<Rightarrow> int" where
  "wrap_int32 x = (x + 2 ^ 31) mod 2 ^ 32 - 2 ^ 31"

definition to_uint64 :: "int \<Rightarrow> label" where
  "to_uint64 x = nat (x mod 2 ^ 64)"

text \<open>
  The voxel-level primitives are external (mahotas, scipy.ndimage, waterz), and the
  specification leaves them aside. They are parameters of the model. \<open>mahotas.label\<close>
  returns its labels, from 0 to their count, in a signed 32-bit array, and the seeds that
  \<open>mahotas.cwatershed\<close> floods from are what the additions to that array leave.
\<close>

record prims =
  mahotas_distance :: "bool ndarray \<Rightarrow> rat ndarray"
  mahotas_regmax :: "rat ndarray \<Rightarrow> bool ndarray"
  mahotas_label :: "bool ndarray \<Rightarrow> label ndarray \<times> nat"
  mahotas_cwatershed :: "rat ndarray \<Rightarrow> int ndarray \<Rightarrow> int ndarray"
  distance_transform_edt :: "bool ndarray \<Rightarrow> rat ndarray"
  maximum_filter :: "rat ndarray \<Rightarrow> nat \<Rightarrow> rat ndarray"
  waterz_agglomerate :: "rat ndarray \<Rightarrow> rat list \<Rightarrow> label ndarray \<Rightarrow> label ndarray list"

section \<open>fragments.py\<close>

text \<open>The tuples that \<open>watershed_from_boundary_distance\<close> returns have two or three entries.\<close>

datatype ret = Ret2 "label ndarray" nat | Ret3 "label ndarray" nat "label ndarray"

fun ret_fragments :: "ret \<Rightarrow> label ndarray" where
  "ret_fragments (Ret2 f n) = f"
| "ret_fragments (Ret3 f n s) = f"

fun ret_max_id :: "ret \<Rightarrow> nat" where
  "ret_max_id (Ret2 f n) = n"
| "ret_max_id (Ret3 f n s) = n"

fun ret_seeds :: "ret \<Rightarrow> label ndarray option" where
  "ret_seeds (Ret2 f n) = None"
| "ret_seeds (Ret3 f n s) = Some s"

text \<open>
  \<open>seeds += next_id\<close> adds into the signed 32-bit array of \<open>mahotas.label\<close>, and
  \<open>seeds[seeds==next_id] = 0\<close> compares the wrapped sums with \<open>next_id\<close> itself.
\<close>

definition get_seeds :: "prims \<Rightarrow> rat ndarray \<Rightarrow> nat \<Rightarrow> int ndarray \<times> nat" where
  "get_seeds P boundary next_id =
     (let distance = mahotas_distance P (map_nd (\<lambda>b. b < 1 / 2) boundary);
          maxima = mahotas_regmax P distance;
          (seeds, num_seeds) = mahotas_label P maxima;
          seeds = map_nd (\<lambda>s. wrap_int32 (int s + int next_id)) seeds;
          seeds = map_nd (\<lambda>s. if s = int next_id then 0 else s) seeds
      in (seeds, num_seeds))"

text \<open>
  \<open>seeds[seeds!=0] += id_offset\<close> adds into the signed 32-bit array as well;
  \<open>boundary_distances.max()\<close> raises ValueError on an array without elements; the
  fragments and the seeds are converted to \<open>uint64\<close> on return.
\<close>

definition watershed_from_boundary_distance ::
  "prims \<Rightarrow> rat ndarray \<Rightarrow> bool \<Rightarrow> nat \<Rightarrow> error + ret" where
  "watershed_from_boundary_distance P boundary_distances return_seeds id_offset =
     (let max_filtered = maximum_filter P boundary_distances 10;
          maxima = map2_nd (=) max_filtered boundary_distances;
          (seeds, n) = mahotas_label P maxima
      in if n = 0 then Inr (Ret2 (zeros (shape boundary_distances)) id_offset)
         else
           let seeds = map_nd (\<lambda>s. if s \<noteq> 0 then wrap_int32 (int s + int id_offset) else 0)
                         seeds
           in if data boundary_distances = [] then Inl ValueError
              else
                let top = Max (set (data boundary_distances));
                    fragments = map_nd to_uint64
                                  (mahotas_cwatershed P
                                     (map_nd (\<lambda>d. top - d) boundary_distances) seeds)
                in Inr (if return_seeds
                        then Ret3 fragments (n + id_offset) (map_nd to_uint64 seeds)
                        else Ret2 fragments (n + id_offset)))"

text \<open>
  One pass of the loop \<open>for z in range(depth)\<close> of \<open>watershed_from_affinities\<close>, for
  \<open>return_seeds = False\<close> (the value with which the repository calls it): the pair
  \<open>(ret[0], ret[1])\<close> computed for the slice \<open>z\<close>, with \<open>ret[0]\<close> as the assignment
  \<open>fragments[z] = ret[0]\<close> into the \<open>uint64\<close> array converts it.
\<close>

definition xy_slice ::
  "prims \<Rightarrow> bool \<Rightarrow> rat \<Rightarrow> rat ndarray \<Rightarrow> nat \<Rightarrow> nat \<Rightarrow> error + (label ndarray \<times> nat)" where
  "xy_slice P use_mahotas max_affinity_value mean_affs z id_offset =
     (if use_mahotas then
        (case getitem (map_nd (\<lambda>a. 1 - a) mean_affs) z of
           Inl e \<Rightarrow> Inl e
         | Inr inv_affs_z \<Rightarrow>
             let (seeds, num_seeds) = get_seeds P inv_affs_z id_offset;
                 f = mahotas_cwatershed P inv_affs_z seeds
             in Inr (map_nd to_uint64 f, id_offset + num_seeds))
      else
        (case getitem mean_affs z of
           Inl e \<Rightarrow> Inl e
         | Inr mean_affs_z \<Rightarrow>
             let boundary_mask = map_nd (\<lambda>a. a > max_affinity_value / 2) mean_affs_z;
                 boundary_distances = distance_transform_edt P boundary_mask
             in (case watershed_from_boundary_distance P boundary_distances False id_offset of
                   Inl e \<Rightarrow> Inl e
                 | Inr ret \<Rightarrow> Inr (ret_fragments ret, ret_max_id ret))))"

text \<open>
  The loop itself, over the remaining slice indices: \<open>fragments[z] = ret[0]\<close> and
  \<open>id_offset = ret[1]\<close> after each slice.
\<close>

fun xy_loop ::
  "prims \<Rightarrow> bool \<Rightarrow> rat \<Rightarrow> rat ndarray \<Rightarrow> nat list \<Rightarrow> nat \<Rightarrow> label ndarray \<Rightarrow>
   error + (label ndarray \<times> nat)" where
  "xy_loop P use_mahotas mx mean_affs [] id_offset fragments = Inr (fragments, id_offset)"
| "xy_loop P use_mahotas mx mean_affs (z # zs) id_offset fragments =
     (case xy_slice P use_mahotas mx mean_affs z id_offset of
        Inl e \<Rightarrow> Inl e
      | Inr (f, id_offset') \<Rightarrow>
          (case setitem fragments z f of
             Inl e \<Rightarrow> Inl e
           | Inr fragments' \<Rightarrow> xy_loop P use_mahotas mx mean_affs zs id_offset' fragments'))"

text \<open>
  Lines 50 to 84: the per-slice extraction. \<open>affs[1]\<close> and \<open>affs[2]\<close> raise IndexError on
  fewer than three channels, and \<open>mean_affs.shape[0]\<close> on an array without axes.
\<close>

definition extract_xy ::
  "prims \<Rightarrow> bool \<Rightarrow> rat \<Rightarrow> rat ndarray \<Rightarrow> error + (label ndarray \<times> nat)" where
  "extract_xy P use_mahotas max_affinity_value affs =
     (case getitem affs 1 of
        Inl e \<Rightarrow> Inl e
      | Inr affs1 \<Rightarrow>
          (case getitem affs 2 of
             Inl e \<Rightarrow> Inl e
           | Inr affs2 \<Rightarrow>
               let mean_affs = map2_nd (\<lambda>a b. (a + b) / 2) affs1 affs2
               in (case shape mean_affs of
                     [] \<Rightarrow> Inl IndexError
                   | depth # sh \<Rightarrow>
                       xy_loop P use_mahotas max_affinity_value mean_affs [0..<depth] 0
                         (zeros (shape mean_affs)))))"

text \<open>
  \<open>watershed_from_affinities\<close> with \<open>return_seeds = False\<close>. \<open>affs_uint8\<close> says whether the
  dtype of \<open>affs\<close> is \<open>np.uint8\<close>. The local variable \<open>fragments\<close> is bound in the
  \<open>fragments_in_xy\<close> branch only; it is \<open>None\<close> while it is unbound, and reading it
  then raises UnboundLocalError, as Python does. In the branch that binds it, the tuple
  \<open>ret\<close> holds the very array \<open>fragments\<close>, so that \<open>fragments[:] = next(generator)\<close>
  changes what is returned.
\<close>

definition watershed_from_affinities ::
  "prims \<Rightarrow> rat ndarray \<Rightarrow> bool \<Rightarrow> bool \<Rightarrow> rat \<Rightarrow> bool \<Rightarrow> error + (label ndarray \<times> nat)" where
  "watershed_from_affinities P affs affs_uint8 fragments_in_xy epsilon_agglomerate use_mahotas =
     (let max_affinity_value = (if affs_uint8 then 255 else 1);
          extracted =
            (if fragments_in_xy then
               (case extract_xy P use_mahotas max_affinity_value affs of
                  Inl e \<Rightarrow> Inl e
                | Inr (fragments, id_offset) \<Rightarrow> Inr (Some fragments, (fragments, id_offset)))
             else
               (case mean_axis0 affs of
                  Inl e \<Rightarrow> Inl e
                | Inr mean_affs \<Rightarrow>
                    let boundary_mask = map_nd (\<lambda>a. a > max_affinity_value / 2) mean_affs;
                        boundary_distances = distance_transform_edt P boundary_mask
                    in (case watershed_from_boundary_distance P boundary_distances False 0 of
                          Inl e \<Rightarrow> Inl e
                        | Inr ret \<Rightarrow> Inr (None, (ret_fragments ret, ret_max_id ret)))))
      in case extracted of
           Inl e \<Rightarrow> Inl e
         | Inr (fragments_var, ret) \<Rightarrow>
             if epsilon_agglomerate > 0 then
               (case fragments_var of
                  None \<Rightarrow> Inl UnboundLocalError
                | Some fragments \<Rightarrow>
                    (case waterz_agglomerate P (map_nd (\<lambda>a. a / max_affinity_value) affs)
                            [epsilon_agglomerate] fragments of
                       [] \<Rightarrow> Inl StopIteration
                     | seg # rest \<Rightarrow>
                         (case setall fragments seg of
                            Inl e \<Rightarrow> Inl e
                          | Inr fragments' \<Rightarrow> Inr (fragments', snd ret))))
             else Inr ret)"

text \<open>
  What the slice-wise extraction relies on from the external primitives: the labels that
  \<open>mahotas.label\<close> assigns lie between 0 and the count it returns, and the watershed
  assigns to every element the value of one of the seeds, or 0.
\<close>

definition label_contract :: "prims \<Rightarrow> bool" where
  "label_contract P \<longleftrightarrow>
     (\<forall>A. \<forall>x \<in> set (data (fst (mahotas_label P A))). x \<le> snd (mahotas_label P A))"

definition watershed_contract :: "prims \<Rightarrow> bool" where
  "watershed_contract P \<longleftrightarrow>
     (\<forall>surface seeds.
        set (data (mahotas_cwatershed P surface seeds)) \<subseteq> insert 0 (set (data seeds)))"

text \<open>The labels other than 0 that occur in an array.\<close>

definition labels_of :: "label ndarray \<Rightarrow> label set" where
  "labels_of A = set (data A) - {0}"

section \<open>parallel_fragments.py\<close>

subsection \<open>Regions, blocks and region-addressed arrays\<close>

text \<open>
  daisy's \<open>Roi\<close>, \<open>Block\<close> and \<open>Array\<close> are external; the model keeps what
  \<open>watershed_in_block\<close> uses of them. A region is an offset and a shape in world units,
  its size the product of the shape. An array carries its data, the region it covers and
  the size of a voxel in world units; its leading axes beyond the dimensions of the region
  are channels.
\<close>

record roi =
  roi_offset :: "int list"
  roi_shape :: "nat list"

definition roi_size :: "roi \<Rightarrow> nat" where
  "roi_size r = prod_list (roi_shape r)"

definition roi_end :: "roi \<Rightarrow> int list" where
  "roi_end r = map (\<lambda>(b, s). b + int s) (zip (roi_offset r) (roi_shape r))"

definition roi_contains :: "roi \<Rightarrow> roi \<Rightarrow> bool" where
  "roi_contains r q \<longleftrightarrow>
     list_all2 (\<le>) (roi_offset r) (roi_offset q) \<and> list_all2 (\<le>) (roi_end q) (roi_end r)"

definition roi_contains_point :: "roi \<Rightarrow> rat list \<Rightarrow> bool" where
  "roi_contains_point r c \<longleftrightarrow>
     length c = length (roi_shape r) \<and>
     list_all (\<lambda>((b, s), x). of_int b \<le> x \<and> x < of_int b + of_nat s)
       (zip (zip (roi_offset r) (roi_shape r)) c)"

definition roi_intersect :: "roi \<Rightarrow> roi \<Rightarrow> roi" where
  "roi_intersect r q =
     (let b = map (\<lambda>(x, y). max x y) (zip (roi_offset r) (roi_offset q));
          e = map (\<lambda>(x, y). min x y) (zip (roi_end r) (roi_end q))
      in \<lparr>roi_offset = b, roi_shape = map (\<lambda>(x, y). nat (y - x)) (zip b e)\<rparr>)"

record block =
  block_id :: nat
  read_roi :: roi
  write_roi :: roi
  requested_write_roi :: roi

record 'a darray =
  arr_data :: "'a ndarray"
  arr_roi :: roi
  arr_voxel_size :: "nat list"

text \<open>
  The elements of the box that starts at \<open>bs\<close> and has \<open>cs\<close> elements along each axis, out
  of row-major data of shape \<open>sh\<close>.
\<close>

fun crop_nd :: "nat list \<Rightarrow> nat list \<Rightarrow> nat list \<Rightarrow> 'a list \<Rightarrow> 'a list" where
  "crop_nd (d # sh) (b # bs) (c # cs) xs =
     concat (map (\<lambda>i. crop_nd sh bs cs (take (prod_list sh) (drop (i * prod_list sh) xs)))
               [b..<b + c])"
| "crop_nd sh bs cs xs = xs"

text \<open>
  \<open>array[roi]\<close>: daisy asserts that the array's region contains the requested one, and
  divides the offsets and the shape by the voxel size.
\<close>

definition array_getitem :: "'a darray \<Rightarrow> roi \<Rightarrow> error + 'a darray" where
  "array_getitem A r =
     (if \<not> roi_contains (arr_roi A) r then Inl AssertionError
      else if 0 \<in> set (arr_voxel_size A) then Inl ZeroDivisionError
      else
        let bs = map (\<lambda>((b, ab), v). nat ((b - ab) div int v))
                   (zip (zip (roi_offset r) (roi_offset (arr_roi A))) (arr_voxel_size A));
            cs = map (\<lambda>(s, v). s div v) (zip (roi_shape r) (arr_voxel_size A));
            sh = shape (arr_data A);
            channels = take (length sh - length cs) sh
        in Inr \<lparr>arr_data = NDArray (channels @ cs)
                   (crop_nd sh (replicate (length channels) 0 @ bs) (channels @ cs)
                      (data (arr_data A))),
                 arr_roi = r, arr_voxel_size = arr_voxel_size A\<rparr>)"

text \<open>\<open>array.intersect(roi)\<close>.\<close>

definition array_intersect :: "'a darray \<Rightarrow> roi \<Rightarrow> error + 'a darray" where
  "array_intersect A r = array_getitem A (roi_intersect (arr_roi A) r)"

text \<open>
  \<open>affs.data *= mask_data\<close> multiplies every channel by the mask, and
  \<open>fragments_data *= mask_data.astype(np.uint64)\<close> the labels, in 64-bit arithmetic.
  numpy raises ValueError when the shape of the mask is not that of the volume.
\<close>

definition mask_affs :: "rat ndarray \<Rightarrow> nat ndarray \<Rightarrow> error + rat ndarray" where
  "mask_affs A M =
     (let channel_axes = take (length (shape A) - length (shape M)) (shape A)
      in if shape M \<noteq> drop (length (shape A) - length (shape M)) (shape A)
         then Inl ValueError
         else Inr (NDArray (shape A)
                (map (\<lambda>(a, m). a * of_nat m)
                   (zip (data A) (concat (replicate (prod_list channel_axes) (data M)))))))"

definition mask_labels :: "label ndarray \<Rightarrow> nat ndarray \<Rightarrow> error + label ndarray" where
  "mask_labels F M =
     (if shape M \<noteq> shape F then Inl ValueError
      else Inr (NDArray (shape F)
             (map (\<lambda>(f, m). (f * m) mod 2 ^ 64) (zip (data F) (data M)))))"

subsection \<open>funlib's \<open>relabel\<close> and \<open>replace_values\<close>, scipy's \<open>center_of_mass\<close>\<close>

text \<open>
  \<open>funlib.segment.arrays.relabel\<close> (external) renumbers the labels other than 0 to
  \<open>1, \<dots>, n\<close> in increasing order of the old labels and returns the new array with
  \<open>n\<close>; \<open>replace_values\<close> replaces each listed value by its partner.
\<close>

definition replace_values :: "label list \<Rightarrow> label list \<Rightarrow> label list \<Rightarrow> label list" where
  "replace_values xs old new =
     map (\<lambda>x. case map_of (zip old new) x of None \<Rightarrow> x | Some y \<Rightarrow> y) xs"

definition relabel :: "label list \<Rightarrow> label list \<times> nat" where
  "relabel xs =
     (let old_labels = sort (remdups (filter (\<lambda>x. x \<noteq> 0) xs));
          n = length old_labels
      in (replace_values xs old_labels [1..<Suc n], n))"

text \<open>
  \<open>center_of_mass(input, labels, index)\<close> with the label array as weights: the mean
  position of the voxels that carry the label, not a number (\<open>None\<close>) when there is none.
\<close>

fun unravel :: "nat list \<Rightarrow> nat \<Rightarrow> nat list" where
  "unravel [] i = []"
| "unravel (d # sh) i = (i div prod_list sh) # unravel sh (i mod prod_list sh)"

definition center_of_mass :: "label ndarray \<Rightarrow> label \<Rightarrow> rat list option" where
  "center_of_mass A f =
     (let pos = filter (\<lambda>i. data A ! i = f) [0..<length (data A)]
      in if pos = [] \<or> f = 0 then None
         else Some (map (\<lambda>d. (\<Sum>i \<leftarrow> pos. of_nat (unravel (shape A) i ! d)) / of_nat (length pos))
                      [0..<length (shape A)]))"

subsection \<open>The shared state\<close>

text \<open>
  What a block leaves behind: the writes to the output array, each a region with its
  labels, and the nodes of the RAG store, each an id with its center. The store is
  external; \<open>num_nodes(roi)\<close> counts the nodes whose center lies in the region, and
  \<open>write_nodes(roi)\<close> commits the nodes whose center lies in it.
\<close>

record world =
  fragments_out :: "(roi \<times> label ndarray) list"
  rag_store :: "(label \<times> rat list) list"

definition num_nodes :: "world \<Rightarrow> roi \<Rightarrow> nat" where
  "num_nodes w r = length (filter (\<lambda>(node, c). roi_contains_point r c) (rag_store w))"

definition write_nodes :: "world \<Rightarrow> roi \<Rightarrow> (label \<times> rat list) list \<Rightarrow> world" where
  "write_nodes w r nodes =
     w\<lparr>rag_store := rag_store w @ filter (\<lambda>(node, c). roi_contains_point r c) nodes\<rparr>"

definition block_done :: "block \<Rightarrow> world \<Rightarrow> bool" where
  "block_done b w \<longleftrightarrow> num_nodes w (write_roi b) > 0"

subsection \<open>\<open>watershed_in_block\<close>\<close>

text \<open>
  Lines 146 to 170: read the affinities of the read region, mask them, extract the
  fragments, mask those, and crop them to the write region. \<open>mask_data\<close> is what
  \<open>get_mask_data_in_roi\<close> returned (the specification leaves mask upsampling aside), or
  \<open>None\<close> without a mask.
\<close>

definition extract_in_block ::
  "prims \<Rightarrow> rat darray \<Rightarrow> bool \<Rightarrow> block \<Rightarrow> bool \<Rightarrow> rat \<Rightarrow> nat ndarray option \<Rightarrow>
   error + (label darray \<times> nat)" where
  "extract_in_block P affs affs_uint8 b fragments_in_xy epsilon_agglomerate mask_data =
     (case array_intersect affs (read_roi b) of
        Inl e \<Rightarrow> Inl e
      | Inr affs' \<Rightarrow>
     (case (case mask_data of None \<Rightarrow> Inr (arr_data affs')
                            | Some m \<Rightarrow> mask_affs (arr_data affs') m) of
        Inl e \<Rightarrow> Inl e
      | Inr affs_data \<Rightarrow>
     (case watershed_from_affinities P affs_data affs_uint8 fragments_in_xy
             epsilon_agglomerate True of
        Inl e \<Rightarrow> Inl e
      | Inr (fragments_data, n) \<Rightarrow>
     (case (case mask_data of None \<Rightarrow> Inr fragments_data
                            | Some m \<Rightarrow> mask_labels fragments_data m) of
        Inl e \<Rightarrow> Inl e
      | Inr fragments_data' \<Rightarrow>
     (case array_getitem \<lparr>arr_data = fragments_data', arr_roi = arr_roi affs',
                          arr_voxel_size = arr_voxel_size affs'\<rparr> (write_roi b) of
        Inl e \<Rightarrow> Inl e
      | Inr fragments \<Rightarrow> Inr (fragments, n))))))"

text \<open>
  Lines 172 to 179: \<open>max_id = fragments.data.max()\<close> (ValueError on an array without
  elements), and the relabelling when \<open>max_id > block.write_roi.size()\<close>.
\<close>

definition compact_ids :: "block \<Rightarrow> label list \<Rightarrow> nat \<Rightarrow> error + (label list \<times> nat)" where
  "compact_ids b fragments n =
     (if fragments = [] then Inl ValueError
      else
        let max_id = Max (set fragments)
        in if max_id > roi_size (write_roi b) then Inr (relabel fragments)
           else Inr (fragments, n))"

text \<open>
  Lines 181 to 188: the offset of the block, and its addition to the labels above 0, which
  wraps around in the 64-bit array. numpy refuses an offset that does not fit in 64 bits
  (the sum cannot be cast back to \<open>uint64\<close>), whatever the labels are; this is the
  \<open>CastError\<close> of \<open>watershed_in_block\<close> below.
\<close>

definition id_bump :: "block \<Rightarrow> nat list \<Rightarrow> error + nat" where
  "id_bump b voxel_size =
     (let size_of_voxel = prod_list voxel_size
      in if size_of_voxel = 0 then Inl ZeroDivisionError
         else
           let num_voxels_in_block = roi_size (requested_write_roi b) div size_of_voxel
           in Inr (block_id b * num_voxels_in_block))"

definition bump_ids :: "nat \<Rightarrow> label list \<Rightarrow> label list" where
  "bump_ids bump fragments = map (\<lambda>x. if x > 0 then (x + bump) mod 2 ^ 64 else x) fragments"

text \<open>
  Lines 194 to 201: the centers of the fragments with an id in \<open>fragment_ids\<close> that occur
  in the cropped array, in world units. \<open>affs.voxel_size*center\<close> is a daisy \<open>Coordinate\<close>,
  which converts each of its entries with \<open>int\<close>, towards zero.
\<close>

definition trunc :: "rat \<Rightarrow> int" where
  "trunc q = (if q < 0 then - \<lfloor>- q\<rfloor> else \<lfloor>q\<rfloor>)"

definition fragment_centers ::
  "roi \<Rightarrow> nat list \<Rightarrow> label ndarray \<Rightarrow> label list \<Rightarrow> (label \<times> rat list) list" where
  "fragment_centers wr voxel_size fragments fragment_ids =
     concat (map (\<lambda>fragment.
        case center_of_mass fragments fragment of
          None \<Rightarrow> []
        | Some center \<Rightarrow>
            [(fragment, map (\<lambda>((b, v), c). of_int (b + trunc (of_nat v * c)))
                          (zip (zip (roi_offset wr) voxel_size) center))])
       fragment_ids)"

text \<open>
  The whole function. \<open>myelin\<close> stands for the check of lines 210 to 232 against the
  myelin prediction (\<open>None\<close> when no \<open>myelin_ds\<close> is given, as in \<open>parallel_watershed\<close>):
  it says for a node and its center whether the fragment is taken for myelin. The function
  returns nothing; its result here is the state it leaves.
\<close>

definition watershed_in_block ::
  "prims \<Rightarrow> rat darray \<Rightarrow> bool \<Rightarrow> block \<Rightarrow> world \<Rightarrow> bool \<Rightarrow> rat \<Rightarrow> nat ndarray option \<Rightarrow>
   (label \<Rightarrow> rat list \<Rightarrow> bool) option \<Rightarrow> error + world" where
  "watershed_in_block P affs affs_uint8 b w fragments_in_xy epsilon_agglomerate mask_data myelin =
     (case extract_in_block P affs affs_uint8 b fragments_in_xy epsilon_agglomerate mask_data of
        Inl e \<Rightarrow> Inl e
      | Inr (fragments, n) \<Rightarrow>
     (case compact_ids b (data (arr_data fragments)) n of
        Inl e \<Rightarrow> Inl e
      | Inr (compacted, n') \<Rightarrow>
     (case id_bump b (arr_voxel_size fragments) of
        Inl e \<Rightarrow> Inl e
      | Inr bump \<Rightarrow>
          if bump \<ge> 2 ^ 64 then Inl CastError
          else
          let bumped = NDArray (shape (arr_data fragments)) (bump_ids bump compacted);
              fragment_ids = [bump + 1..<bump + 1 + n']
          in if n' = 0 then Inr w
             else
               let centers = fragment_centers (write_roi b) (arr_voxel_size fragments)
                               bumped fragment_ids;
                   myelin_fragments =
                     (case myelin of
                        None \<Rightarrow> []
                      | Some is_myelin \<Rightarrow>
                          map fst (filter (\<lambda>(node, c). is_myelin node c) centers));
                   centers' = filter (\<lambda>(node, c). node \<notin> set myelin_fragments) centers;
                   stored = (case myelin of
                               None \<Rightarrow> bumped
                             | Some is_myelin \<Rightarrow>
                                 NDArray (shape bumped)
                                   (replace_values (data bumped) myelin_fragments
                                      (map (\<lambda>i. 0) myelin_fragments)));
                   w' = w\<lparr>fragments_out := fragments_out w @ [(write_roi b, stored)]\<rparr>
               in Inr (write_nodes w' (write_roi b) centers'))))"

text \<open>The ids other than 0 that a state holds, in the output array and in the RAG store.\<close>

definition array_ids :: "world \<Rightarrow> label set" where
  "array_ids w = {x. x \<noteq> 0 \<and> (\<exists>(r, A) \<in> set (fragments_out w). x \<in> set (data A))}"

definition node_ids :: "world \<Rightarrow> label set" where
  "node_ids w = fst ` set (rag_store w)"

definition empty_world :: world where
  "empty_world = \<lparr>fragments_out = [], rag_store = []\<rparr>"

section \<open>rag.py\<close>

subsection \<open>The graph\<close>

text \<open>
  \<open>Rag\<close> extends skimage's \<open>RAG\<close>, a networkx \<open>Graph\<close>: both are external. A graph is its
  nodes, each with the value of its \<open>labels\<close> attribute if it has one, and its undirected
  edges, each stored once with its attribute dictionary. A dictionary is an association
  list from attribute names to numbers (\<open>merged\<close> and \<open>agglomerated\<close> are 0 or 1, the
  centers are coordinates).
\<close>

type_synonym attrs = "(string \<times> rat) list"

record rag =
  rag_nodes :: "(nat \<times> nat list option) list"
  rag_edges :: "((nat \<times> nat) \<times> attrs) list"

definition nodes :: "rag \<Rightarrow> nat list" where
  "nodes G = map fst (rag_nodes G)"

definition is_edge :: "nat \<Rightarrow> nat \<Rightarrow> (nat \<times> nat) \<times> attrs \<Rightarrow> bool" where
  "is_edge u v e \<longleftrightarrow> fst e = (u, v) \<or> fst e = (v, u)"

definition edge_data :: "rag \<Rightarrow> nat \<Rightarrow> nat \<Rightarrow> attrs option" where
  "edge_data G u v = map_option snd (find (is_edge u v) (rag_edges G))"

definition neighbors :: "rag \<Rightarrow> nat \<Rightarrow> nat list" where
  "neighbors G u =
     remdups (concat (map (\<lambda>((a, b), d). (if a = u then [b] else []) @ (if b = u then [a] else []))
                        (rag_edges G)))"

text \<open>\<open>d.update(other)\<close> on dictionaries.\<close>

definition dict_update :: "attrs \<Rightarrow> attrs \<Rightarrow> attrs" where
  "dict_update d other = fold (\<lambda>(k, v). AList.update k v) other d"

text \<open>
  networkx's \<open>add_edge(u, v, attr_dict)\<close>: the end points become nodes if they are not
  yet; an edge that exists keeps its dictionary, updated with \<open>attr_dict\<close>; a new edge
  gets \<open>attr_dict\<close>.
\<close>

definition add_node :: "rag \<Rightarrow> nat \<Rightarrow> rag" where
  "add_node G n = (if n \<in> set (nodes G) then G else G\<lparr>rag_nodes := rag_nodes G @ [(n, None)]\<rparr>)"

definition add_edge :: "rag \<Rightarrow> nat \<Rightarrow> nat \<Rightarrow> attrs \<Rightarrow> rag" where
  "add_edge G u v attr_dict =
     (let G' = add_node (add_node G u) v
      in if list_ex (is_edge u v) (rag_edges G')
         then G'\<lparr>rag_edges := map (\<lambda>e. if is_edge u v e then (fst e, dict_update (snd e) attr_dict)
                                         else e) (rag_edges G')\<rparr>
         else G'\<lparr>rag_edges := rag_edges G' @ [((u, v), attr_dict)]\<rparr>)"

text \<open>networkx's \<open>remove_node(n)\<close>: the node goes with its edges.\<close>

definition remove_node :: "rag \<Rightarrow> nat \<Rightarrow> error + rag" where
  "remove_node G n =
     (if n \<notin> set (nodes G) then Inl NetworkXError
      else Inr \<lparr>rag_nodes = filter (\<lambda>(m, l). m \<noteq> n) (rag_nodes G),
                rag_edges = filter (\<lambda>((a, b), d). a \<noteq> n \<and> b \<noteq> n) (rag_edges G)\<rparr>)"

definition node_labels :: "rag \<Rightarrow> nat \<Rightarrow> error + nat list" where
  "node_labels G n =
     (case map_of (rag_nodes G) n of
        None \<Rightarrow> Inl KeyError
      | Some None \<Rightarrow> Inl KeyError
      | Some (Some l) \<Rightarrow> Inr l)"

text \<open>
  skimage's \<open>merge_nodes(src, dst, weight_func)\<close> with \<open>in_place=True\<close>: for every
  neighbor of \<open>src\<close> or \<open>dst\<close> other than the two, \<open>add_edge(neighbor, dst,
  attr_dict=weight_func(graph, src, dst, neighbor))\<close>; then the labels of \<open>src\<close> are put
  in front of those of \<open>dst\<close>, and \<open>src\<close> is removed.
\<close>

definition merge_nodes ::
  "rag \<Rightarrow> nat \<Rightarrow> nat \<Rightarrow> (rag \<Rightarrow> nat \<Rightarrow> nat \<Rightarrow> nat \<Rightarrow> attrs) \<Rightarrow> error + rag" where
  "merge_nodes G src dst weight_func =
     (if src \<notin> set (nodes G) \<or> dst \<notin> set (nodes G) then Inl NetworkXError
      else
        let nbrs = filter (\<lambda>n. n \<noteq> src \<and> n \<noteq> dst) (remdups (neighbors G src @ neighbors G dst));
            G1 = fold (\<lambda>neighbor H. add_edge H neighbor dst (weight_func H src dst neighbor)) nbrs G
        in (case node_labels G1 src of
              Inl e \<Rightarrow> Inl e
            | Inr ls \<Rightarrow>
            (case node_labels G1 dst of
               Inl e \<Rightarrow> Inl e
             | Inr ld \<Rightarrow>
                 remove_node
                   (G1\<lparr>rag_nodes := map (\<lambda>(m, l). if m = dst then (m, Some (ls @ ld)) else (m, l))
                                       (rag_nodes G1)\<rparr>) src)))"

subsection \<open>Connected components of the merged edges\<close>

text \<open>
  networkx's \<open>connected_components\<close>: a breadth-first search from every node that no
  earlier search has seen. \<open>unseen\<close> lists the nodes not yet seen, \<open>queue\<close> the nodes still
  to visit; the nodes come out in the order in which the search sees them.
\<close>

function plain_bfs :: "(nat \<Rightarrow> nat list) \<Rightarrow> nat list \<Rightarrow> nat list \<Rightarrow> nat list" where
  "plain_bfs adj unseen [] = []"
| "plain_bfs adj unseen (v # queue) =
     (if v \<in> set unseen then v # plain_bfs adj (removeAll v unseen) (queue @ adj v)
      else plain_bfs adj unseen queue)"
  by pat_completeness auto
termination
  by (relation "measures [\<lambda>(adj, unseen, queue). length unseen,
                          \<lambda>(adj, unseen, queue). length queue]")
     (auto simp: length_removeAll_less)

function connected_components :: "(nat \<Rightarrow> nat list) \<Rightarrow> nat list \<Rightarrow> nat list list" where
  "connected_components adj [] = []"
| "connected_components adj (v # unseen) =
     (let component = plain_bfs adj (v # unseen) [v]
      in component # connected_components adj (filter (\<lambda>u. u \<notin> set component) unseen))"
  by pat_completeness auto
termination
  by (relation "measure (\<lambda>(adj, unseen). length unseen)") (auto simp: less_Suc_eq_le)

text \<open>
  \<open>get_connected_components\<close>: \<open>data['merged']\<close> raises KeyError on an edge without the
  attribute. The edges with a true \<open>merged\<close> make the auxiliary graph, over all nodes of
  the RAG. networkx gives each component as a set; \<open>listing\<close> is the order in which
  \<open>list(component)\<close> enumerates it, which Python leaves to the implementation.
\<close>

definition merged_edges :: "rag \<Rightarrow> error + (nat \<times> nat) list" where
  "merged_edges G =
     (if list_ex (\<lambda>(e, d). map_of d ''merged'' = None) (rag_edges G) then Inl KeyError
      else Inr (map fst (filter (\<lambda>(e, d). map_of d ''merged'' \<noteq> Some 0) (rag_edges G))))"

definition merge_adj :: "(nat \<times> nat) list \<Rightarrow> nat \<Rightarrow> nat list" where
  "merge_adj es u =
     concat (map (\<lambda>(a, b). (if a = u then [b] else []) @ (if b = u then [a] else [])) es)"

definition get_connected_components ::
  "(nat list \<Rightarrow> nat list) \<Rightarrow> rag \<Rightarrow> error + nat list list" where
  "get_connected_components listing G =
     (case merged_edges G of
        Inl e \<Rightarrow> Inl e
      | Inr es \<Rightarrow> Inr (map listing (connected_components (merge_adj es) (nodes G))))"

subsection \<open>What a component is\<close>

text \<open>
  The pairs of nodes joined by an edge with a true \<open>merged\<close>, in both directions; the
  edges of a graph join its nodes, and its nodes are the keys of a dictionary.
\<close>

definition merged_pairs :: "rag \<Rightarrow> (nat \<times> nat) set" where
  "merged_pairs G =
     {(u, v). \<exists>e \<in> set (rag_edges G). is_edge u v e \<and>
        map_of (snd e) ''merged'' \<noteq> None \<and> map_of (snd e) ''merged'' \<noteq> Some 0}"

definition wf_rag :: "rag \<Rightarrow> bool" where
  "wf_rag G \<longleftrightarrow>
     distinct (nodes G) \<and>
     (\<forall>e \<in> set (rag_edges G). fst (fst e) \<in> set (nodes G) \<and> snd (fst e) \<in> set (nodes G))"

text \<open>
  For the search: the relation of an adjacency function, a relation inside a set of nodes,
  and lists of components of which no two share a node.
\<close>

definition adj_rel :: "(nat \<Rightarrow> nat list) \<Rightarrow> (nat \<times> nat) set" where
  "adj_rel adj = {(u, v). v \<in> set (adj u)}"

definition inside :: "(nat \<times> nat) set \<Rightarrow> nat set \<Rightarrow> (nat \<times> nat) set" where
  "inside E U = {(u, v). (u, v) \<in> E \<and> u \<in> U \<and> v \<in> U}"

fun pairwise_disjoint :: "nat list list \<Rightarrow> bool" where
  "pairwise_disjoint [] \<longleftrightarrow> True"
| "pairwise_disjoint (c # cs) \<longleftrightarrow> (\<forall>c' \<in> set cs. set c \<inter> set c' = {}) \<and> pairwise_disjoint cs"

declare plain_bfs.simps [simp del] connected_components.simps [simp del]

subsection \<open>Contraction\<close>

text \<open>
  \<open>__add_esential_node_attributes\<close>, and \<open>__contract_nodes\<close>: the nodes of a component
  are merged one into the next, with the weight function that gives every edge it is
  asked about the attributes \<open>merged = 0\<close> and \<open>agglomerated = 0\<close>; the last node of the
  component stands for it (\<open>component[-1]\<close> raises IndexError on an empty component).
\<close>

definition add_esential_node_attributes :: "rag \<Rightarrow> rag" where
  "add_esential_node_attributes G =
     G\<lparr>rag_nodes := map (\<lambda>(n, l). (n, Some (case l of None \<Rightarrow> [n] | Some ls \<Rightarrow> ls)))
                        (rag_nodes G)\<rparr>"

definition default_attributes :: "rag \<Rightarrow> nat \<Rightarrow> nat \<Rightarrow> nat \<Rightarrow> attrs" where
  "default_attributes G src dst n = [(''merged'', 0), (''agglomerated'', 0)]"

fun merge_component :: "rag \<Rightarrow> nat list \<Rightarrow> error + rag" where
  "merge_component G (a # b # component) =
     (case merge_nodes G a b default_attributes of
        Inl e \<Rightarrow> Inl e
      | Inr G' \<Rightarrow> merge_component G' (b # component))"
| "merge_component G component = Inr G"

fun contract_components :: "rag \<Rightarrow> nat list list \<Rightarrow> error + (rag \<times> nat list)" where
  "contract_components G [] = Inr (G, [])"
| "contract_components G (component # components) =
     (case merge_component G component of
        Inl e \<Rightarrow> Inl e
      | Inr G' \<Rightarrow>
          if component = [] then Inl IndexError
          else (case contract_components G' components of
                  Inl e \<Rightarrow> Inl e
                | Inr (G'', component_nodes) \<Rightarrow> Inr (G'', last component # component_nodes)))"

definition contract_nodes :: "rag \<Rightarrow> nat list list \<Rightarrow> error + (rag \<times> nat list)" where
  "contract_nodes G components = contract_components (add_esential_node_attributes G) components"

text \<open>
  \<open>__relabel\<close>: the lookup table starts as the identity on \<open>0, \<dots>, array.max()\<close>
  (\<open>max\<close> raises ValueError on an array without elements), the nodes of each component
  that are in the table get the label of the component, and every element of the array is
  looked up.
\<close>

definition relabel_component :: "nat list \<Rightarrow> nat list \<Rightarrow> nat \<Rightarrow> nat list" where
  "relabel_component values_map component label =
     fold (\<lambda>c vm. if c < length vm then vm[c := label] else vm) component values_map"

definition relabel_array ::
  "label list \<Rightarrow> nat list list \<Rightarrow> nat list \<Rightarrow> error + label list" where
  "relabel_array array components component_labels =
     (if array = [] then Inl ValueError
      else
        let values_map = [0..<Max (set array) + 1];
            values_map' = fold (\<lambda>(component, label) vm. relabel_component vm component label)
                            (zip components component_labels) values_map
        in Inr (map (\<lambda>x. values_map' ! x) array))"

definition contract_merged_nodes ::
  "(nat list \<Rightarrow> nat list) \<Rightarrow> rag \<Rightarrow> label list option \<Rightarrow> error + (rag \<times> label list option)" where
  "contract_merged_nodes listing G fragments =
     (case get_connected_components listing G of
        Inl e \<Rightarrow> Inl e
      | Inr components \<Rightarrow>
     (case contract_nodes G components of
        Inl e \<Rightarrow> Inl e
      | Inr (G', component_nodes) \<Rightarrow>
     (case fragments of
        None \<Rightarrow> Inr (G', None)
      | Some array \<Rightarrow>
          (case relabel_array array components component_nodes of
             Inl e \<Rightarrow> Inl e
           | Inr array' \<Rightarrow> Inr (G', Some array')))))"

text \<open>
  For the contraction: a dictionary in which \<open>merged\<close> and \<open>agglomerated\<close> are 0, and a
  graph in which \<open>n\<close> and \<open>dst\<close> are joined and every edge between them has such a
  dictionary.
\<close>

definition flags_reset :: "attrs \<Rightarrow> bool" where
  "flags_reset d \<longleftrightarrow> map_of d ''merged'' = Some 0 \<and> map_of d ''agglomerated'' = Some 0"

definition reset_between :: "rag \<Rightarrow> nat \<Rightarrow> nat \<Rightarrow> bool" where
  "reset_between G n dst \<longleftrightarrow>
     (\<exists>e \<in> set (rag_edges G). is_edge n dst e) \<and>
     (\<forall>e \<in> set (rag_edges G). is_edge n dst e \<longrightarrow> flags_reset (snd e))"

section \<open>Concrete primitives for the examples\<close>

text \<open>
  Stand-ins for the external primitives, used where a statement is evaluated on a concrete
  input; they are what the primitives compute on the volumes of the examples, whose
  affinities are constant over each depth slice. The distance transforms of a constant
  mask are constant, and \<open>regmax\<close> marks the elements that reach the maximum of the field
  (on a constant field all of them, as mahotas marks a plateau). \<open>toy_label\<close> gives every
  marked element the label 1 (what \<open>mahotas.label\<close> returns when the marked elements form
  one connected region, or none); the watershed returns its seeds (every element is a
  seed); the maximum filter returns its input; and the agglomeration merges all fragments
  into the fragment 1 (what waterz returns for a positive threshold when all affinities
  are 1).
\<close>

definition toy_label :: "bool ndarray \<Rightarrow> label ndarray \<times> nat" where
  "toy_label A = (map_nd (\<lambda>b. if b then 1 else 0) A, if True \<in> set (data A) then 1 else 0)"

definition toy_prims :: prims where
  "toy_prims = \<lparr>
     mahotas_distance = map_nd (\<lambda>b. if b then 1 else 0),
     mahotas_regmax = (\<lambda>A. map_nd (\<lambda>d. d = Max (set (data A))) A),
     mahotas_label = toy_label,
     mahotas_cwatershed = (\<lambda>surface seeds. seeds),
     distance_transform_edt = map_nd (\<lambda>b. if b then 1 else 0),
     maximum_filter = (\<lambda>A size. A),
     waterz_agglomerate = (\<lambda>affs thresholds fragments.
       map (\<lambda>t. map_nd (\<lambda>x. if x = 0 then 0 else 1) fragments) thresholds) \<rparr>"

text \<open>
  A volume of two by one by three voxels of size \<open>(2, 1, 1)\<close> with three affinity channels,
  all affinities 1, cut into blocks of one voxel with a context of one voxel along the
  first axis. \<open>block_3\<close> and \<open>block_4\<close> are the blocks with the indices \<open>(1, 0, 0)\<close> and
  \<open>(0, 0, 2)\<close>; their ids are the Cantor numbers of the indices, as daisy assigns them.
\<close>

definition affs_ex :: "rat darray" where
  "affs_ex = \<lparr>arr_data = NDArray [3, 2, 1, 3] (replicate 18 1),
              arr_roi = \<lparr>roi_offset = [0, 0, 0], roi_shape = [4, 1, 3]\<rparr>,
              arr_voxel_size = [2, 1, 1]\<rparr>"

definition block_3 :: block where
  "block_3 = \<lparr>block_id = 3,
              read_roi = \<lparr>roi_offset = [0, 0, 0], roi_shape = [6, 1, 1]\<rparr>,
              write_roi = \<lparr>roi_offset = [2, 0, 0], roi_shape = [2, 1, 1]\<rparr>,
              requested_write_roi = \<lparr>roi_offset = [2, 0, 0], roi_shape = [2, 1, 1]\<rparr>\<rparr>"

definition block_4 :: block where
  "block_4 = \<lparr>block_id = 4,
              read_roi = \<lparr>roi_offset = [-2, 0, 2], roi_shape = [6, 1, 1]\<rparr>,
              write_roi = \<lparr>roi_offset = [0, 0, 2], roi_shape = [2, 1, 1]\<rparr>,
              requested_write_roi = \<lparr>roi_offset = [0, 0, 2], roi_shape = [2, 1, 1]\<rparr>\<rparr>"

text \<open>
  A volume of two voxels of size \<open>(1, 1, 1)\<close> that is one block, with the id 7, and two
  masks for it: one that masks the second voxel out, one that masks both out.
\<close>

definition affs_small :: "rat darray" where
  "affs_small = \<lparr>arr_data = NDArray [3, 2, 1, 1] (replicate 6 1),
                 arr_roi = \<lparr>roi_offset = [0, 0, 0], roi_shape = [2, 1, 1]\<rparr>,
                 arr_voxel_size = [1, 1, 1]\<rparr>"

definition block_7 :: block where
  "block_7 = \<lparr>block_id = 7,
              read_roi = \<lparr>roi_offset = [0, 0, 0], roi_shape = [2, 1, 1]\<rparr>,
              write_roi = \<lparr>roi_offset = [0, 0, 0], roi_shape = [2, 1, 1]\<rparr>,
              requested_write_roi = \<lparr>roi_offset = [0, 0, 0], roi_shape = [2, 1, 1]\<rparr>\<rparr>"

definition mask_half :: "nat ndarray" where
  "mask_half = NDArray [2, 1, 1] [1, 0]"

definition mask_out :: "nat ndarray" where
  "mask_out = NDArray [2, 1, 1] [0, 0]"

text \<open>
  A RAG of four nodes: the edges \<open>(1, 2)\<close> and \<open>(2, 3)\<close> are merged, the edge \<open>(3, 4)\<close> is
  not, and there is no edge \<open>(1, 3)\<close>.
\<close>

definition rag_ex :: rag where
  "rag_ex = \<lparr>rag_nodes = [(1, Some [1]), (2, Some [2]), (3, Some [3]), (4, Some [4])],
             rag_edges = [((1, 2), [(''merged'', 1), (''agglomerated'', 1), (''center_z'', 5)]),
                          ((2, 3), [(''merged'', 1), (''agglomerated'', 1), (''center_z'', 7)]),
                          ((3, 4), [(''merged'', 0), (''agglomerated'', 1), (''center_z'', 9)])]\<rparr>"

text \<open>
  A RAG of three nodes that are all adjacent, as \<open>Rag(fragments)\<close> builds it with a center
  for every edge; only the edge \<open>(1, 2)\<close> is merged.
\<close>

definition rag_tri :: rag where
  "rag_tri = \<lparr>rag_nodes = [(1, Some [1]), (2, Some [2]), (3, Some [3])],
              rag_edges = [((1, 2), [(''merged'', 1), (''agglomerated'', 1), (''center_z'', 5)]),
                           ((2, 3), [(''merged'', 0), (''agglomerated'', 1), (''center_z'', 7)]),
                           ((1, 3), [(''merged'', 0), (''agglomerated'', 1), (''center_z'', 9)])]\<rparr>"

section \<open>Zero seeds in \<open>watershed_from_boundary_distance\<close>\<close>

text \<open>
  C10. If \<open>mahotas.label\<close> reports no maxima of the boundary-distance field
  (\<open>n = 0\<close>), \<open>watershed_from_boundary_distance\<close> returns the two-entry tuple of an
  all-zero label array with the shape of the input and the unchanged \<open>id_offset\<close>, whatever
  \<open>return_seeds\<close> is (so the tuple has no seeds entry), and whatever the watershed
  primitive \<open>w\<close> would compute (so it is not consulted).
\<close>

theorem wfbd_zero_seeds:
  assumes "snd (mahotas_label P
                 (map2_nd (=) (maximum_filter P boundary_distances 10) boundary_distances)) = 0"
  shows "\<exists>r. watershed_from_boundary_distance (P\<lparr>mahotas_cwatershed := w\<rparr>)
                boundary_distances return_seeds id_offset = Inr r
           \<and> r = Ret2 (zeros (shape boundary_distances)) id_offset
           \<and> shape (ret_fragments r) = shape boundary_distances
           \<and> length (data (ret_fragments r)) = prod_list (shape boundary_distances)
           \<and> (\<forall>x \<in> set (data (ret_fragments r)). x = 0)
           \<and> ret_max_id r = id_offset
           \<and> ret_seeds r = None"
  using assms
  by (auto simp: watershed_from_boundary_distance_def zeros_def split: prod.splits)

theorem wfbd_zero_seeds_witness:
  "\<exists>r. watershed_from_boundary_distance (toy_prims\<lparr>mahotas_cwatershed := (\<lambda>s m. zeros [7])\<rparr>)
          (NDArray [0, 3] []) True 5 = Inr r
     \<and> r = Ret2 (zeros [0, 3]) 5
     \<and> shape (ret_fragments r) = [0, 3]
     \<and> length (data (ret_fragments r)) = prod_list [0, 3]
     \<and> (\<forall>x \<in> set (data (ret_fragments r)). x = 0)
     \<and> ret_max_id r = 5
     \<and> ret_seeds r = None"
  using wfbd_zero_seeds [of toy_prims "NDArray [0, 3] []" "\<lambda>s m. zeros [7]" True 5]
  by (simp add: toy_prims_def toy_label_def map2_nd_def map_nd_def)

section \<open>The agglomeration pass of \<open>watershed_from_affinities\<close>\<close>

text \<open>
  In the three-dimensional mode with a positive \<open>epsilon_agglomerate\<close> the function never
  returns a result: whatever the extraction gave, the call of \<open>waterz.agglomerate\<close> reads
  the unbound variable \<open>fragments\<close>.
\<close>

lemma wfa_3d_epsilon_raises:
  assumes "0 < epsilon_agglomerate"
  shows "\<exists>e. watershed_from_affinities P affs affs_uint8 False epsilon_agglomerate use_mahotas
              = Inl e"
  using assms
  by (auto simp: watershed_from_affinities_def Let_def split: sum.splits prod.splits)

text \<open>
  In the per-slice mode a successful extraction is followed by the single agglomeration
  pass: the returned array holds the first segmentation that \<open>waterz.agglomerate\<close> yields,
  together with the id offset reached by the extraction.
\<close>

lemma wfa_xy_epsilon_agglomerates:
  assumes "0 < epsilon_agglomerate"
    and "extract_xy P use_mahotas (if affs_uint8 then 255 else 1) affs = Inr (fragments, n)"
    and "waterz_agglomerate P (map_nd (\<lambda>a. a / (if affs_uint8 then 255 else 1)) affs)
           [epsilon_agglomerate] fragments = seg # rest"
    and "shape seg = shape fragments"
  shows "watershed_from_affinities P affs affs_uint8 True epsilon_agglomerate use_mahotas
         = Inr (NDArray (shape fragments) (data seg), n)"
  using assms
  by (simp add: watershed_from_affinities_def Let_def setall_def)

text \<open>
  C4. The claim fails in the three-dimensional mode. On a one-voxel volume with three
  affinity channels of value 1, \<open>watershed_from_affinities\<close> with
  \<open>fragments_in_xy = False\<close> and \<open>epsilon_agglomerate = 1/10\<close> raises UnboundLocalError,
  while the same call with \<open>fragments_in_xy = True\<close> returns its result.
\<close>

theorem wfa_3d_epsilon_unbound_fragments:
  "watershed_from_affinities toy_prims (NDArray [3, 1, 1, 1] [1, 1, 1]) False False (1 / 10) True
     = Inl UnboundLocalError
   \<and> watershed_from_affinities toy_prims (NDArray [3, 1, 1, 1] [1, 1, 1]) False True (1 / 10) True
     = Inr (NDArray [1, 1, 1] [1], 1)"
  by code_simp


section \<open>Labels through \<open>watershed_in_block\<close>\<close>

lemma length_replace_values [simp]: "length (replace_values xs old new) = length xs"
  by (simp add: replace_values_def)

lemma replace_values_zero_fixed:
  assumes "0 \<notin> set old" and "i < length xs" and "xs ! i = 0"
  shows "replace_values xs old new ! i = 0"
proof -
  have "map_of (zip old new) 0 = None"
  proof (cases "map_of (zip old new) 0")
    case (Some v)
    then have "0 \<in> set old" by (auto dest!: map_of_SomeD set_zip_leftD)
    with assms(1) show ?thesis by simp
  qed simp
  then show ?thesis using assms by (simp add: replace_values_def)
qed

lemma replace_by_zero_zero:
  assumes "\<forall>v \<in> set new. v = 0" and "i < length xs" and "xs ! i = 0"
  shows "replace_values xs old new ! i = 0"
  using assms
  by (auto simp: replace_values_def split: option.splits dest!: map_of_SomeD set_zip_rightD)

lemma length_relabel [simp]: "length (fst (relabel xs)) = length xs"
  by (simp add: relabel_def Let_def)

lemma relabel_zero:
  assumes "i < length xs" and "xs ! i = 0"
  shows "fst (relabel xs) ! i = 0"
  using assms by (simp add: relabel_def Let_def replace_values_zero_fixed)

lemma compact_ids_zero:
  assumes "compact_ids b xs n = Inr (ys, n')" and "i < length xs" and "xs ! i = 0"
  shows "length ys = length xs \<and> ys ! i = 0"
  using assms
  by (auto simp: compact_ids_def Let_def relabel_zero split: if_splits
      dest!: arg_cong [where f = fst])

lemma length_bump_ids [simp]: "length (bump_ids k xs) = length xs"
  by (simp add: bump_ids_def)

lemma bump_ids_zero: "i < length xs \<Longrightarrow> xs ! i = 0 \<Longrightarrow> bump_ids k xs ! i = 0"
  by (simp add: bump_ids_def)

text \<open>
  C9. Let \<open>fragments\<close> be the labels of the write region after extraction, masking and
  cropping. When \<open>watershed_in_block\<close> returns, it has either written nothing, or it has
  written to the output one array for the write region, of the shape of \<open>fragments\<close>, in
  which every voxel that is 0 in \<open>fragments\<close> is 0: neither the relabelling, nor the
  offset, nor the myelin filter gives a background voxel an id.
\<close>

theorem background_stays_zero:
  assumes "extract_in_block P affs affs_uint8 b fragments_in_xy epsilon_agglomerate mask_data
             = Inr (fragments, n)"
    and "watershed_in_block P affs affs_uint8 b w fragments_in_xy epsilon_agglomerate mask_data
           myelin = Inr w'"
  shows "w' = w \<or>
         (\<exists>out. fragments_out w' = fragments_out w @ [(write_roi b, out)]
            \<and> shape out = shape (arr_data fragments)
            \<and> length (data out) = length (data (arr_data fragments))
            \<and> (\<forall>i < length (data out).
                  data (arr_data fragments) ! i = 0 \<longrightarrow> data out ! i = 0))"
proof -
  obtain compacted n' where c: "compact_ids b (data (arr_data fragments)) n = Inr (compacted, n')"
    using assms by (auto simp: watershed_in_block_def split: sum.splits)
  obtain bump where bm: "id_bump b (arr_voxel_size fragments) = Inr bump"
    using assms c by (auto simp: watershed_in_block_def split: sum.splits)
  have fits: "\<not> 2 ^ 64 \<le> bump"
  proof
    assume "2 ^ 64 \<le> bump"
    then show False using assms(2) by (simp add: watershed_in_block_def assms(1) c bm)
  qed
  have len: "length compacted = length (data (arr_data fragments))"
    using c by (auto simp: compact_ids_def Let_def split: if_splits dest!: arg_cong [where f = fst])
  define bumped where "bumped = bump_ids bump compacted"
  have z: "\<And>i. i < length bumped \<Longrightarrow> data (arr_data fragments) ! i = 0 \<Longrightarrow> bumped ! i = 0"
    using compact_ids_zero [OF c] len by (simp add: bump_ids_zero bumped_def)
  have lb: "length bumped = length (data (arr_data fragments))"
    by (simp add: bumped_def len)
  show ?thesis
  proof (cases "n' = 0")
    case True
    then show ?thesis
      using assms(2) fits by (simp add: watershed_in_block_def assms(1) c bm)
  next
    case False
    show ?thesis
    proof (cases myelin)
      case None
      then have "fragments_out w' =
          fragments_out w @ [(write_roi b, NDArray (shape (arr_data fragments)) bumped)]"
        using assms(2) False fits
        by (auto simp: watershed_in_block_def assms(1) c bm write_nodes_def Let_def
            bumped_def)
      then show ?thesis using z lb by simp
    next
      case (Some is_myelin)
      define centers where "centers = fragment_centers (write_roi b) (arr_voxel_size fragments)
         (NDArray (shape (arr_data fragments)) bumped) [bump + 1..<bump + 1 + n']"
      define ms where "ms = map fst (filter (\<lambda>(node, c). is_myelin node c) centers)"
      have "fragments_out w' =
          fragments_out w @ [(write_roi b, NDArray (shape (arr_data fragments))
             (replace_values bumped ms (map (\<lambda>i. 0) ms)))]"
        using assms(2) False Some fits
        by (auto simp: watershed_in_block_def assms(1) c bm write_nodes_def Let_def
            bumped_def ms_def centers_def)
      then show ?thesis using z lb by (simp add: replace_by_zero_zero)
    qed
  qed
qed

lemma extract_block_7_half:
  "extract_in_block toy_prims affs_small False block_7 True 0 (Some mask_half)
   = Inr (\<lparr>arr_data = NDArray [2, 1, 1] [1, 0],
            arr_roi = \<lparr>roi_offset = [0, 0, 0], roi_shape = [2, 1, 1]\<rparr>,
            arr_voxel_size = [1, 1, 1]\<rparr>, 2)"
  by code_simp

lemma run_block_7_half:
  "watershed_in_block toy_prims affs_small False block_7 empty_world True 0 (Some mask_half) None
   = Inr \<lparr>fragments_out = [(\<lparr>roi_offset = [0, 0, 0], roi_shape = [2, 1, 1]\<rparr>,
                              NDArray [2, 1, 1] [15, 0])],
          rag_store = [(15, [0, 0, 0])]\<rparr>"
  by code_simp

theorem background_stays_zero_witness:
  "\<exists>out. fragments_out \<lparr>fragments_out = [(\<lparr>roi_offset = [0, 0, 0], roi_shape = [2, 1, 1]\<rparr>,
                                          NDArray [2, 1, 1] [15, 0])],
                         rag_store = [(15, [0, 0, 0])]\<rparr>
          = fragments_out empty_world @ [(write_roi block_7, out)]
      \<and> shape out = [2, 1, 1]
      \<and> length (data out) = 2
      \<and> (\<forall>i < length (data out). [1, 0 :: nat] ! i = 0 \<longrightarrow> data out ! i = 0)"
  using background_stays_zero [OF extract_block_7_half run_block_7_half]
  by (simp add: empty_world_def)


section \<open>The id offset and the relabelling threshold\<close>

text \<open>
  C2. The threshold of the relabelling is \<open>block.write_roi.size()\<close>, the size of the write
  region in world units, not its number of voxels. For \<open>block_3\<close>, whose write region is
  one voxel of size \<open>(2, 1, 1)\<close>, the cropped fragments are \<open>[2]\<close>: the maximum label 2
  exceeds the number of voxels 1, yet \<open>compact_ids\<close> leaves the labels as they are (a
  relabelling would give \<open>[1]\<close>), and the offset 3 is added to the label 2.
\<close>

theorem relabel_skipped_in_block_3:
  "extract_in_block toy_prims affs_ex False block_3 True 0 None
     = Inr (\<lparr>arr_data = NDArray [1, 1, 1] [2],
              arr_roi = \<lparr>roi_offset = [2, 0, 0], roi_shape = [2, 1, 1]\<rparr>,
              arr_voxel_size = [2, 1, 1]\<rparr>, 2)
   \<and> Max (set [2 :: nat]) > length [2 :: nat]
   \<and> roi_size (write_roi block_3) div prod_list [2, 1, 1] = length [2 :: nat]
   \<and> compact_ids block_3 [2] 2 = Inr ([2], 2)
   \<and> relabel [2] = ([1], 1)
   \<and> id_bump block_3 [2, 1, 1] = Inr 3
   \<and> bump_ids 3 [2] = [5]"
  by code_simp

text \<open>
  C1. \<open>block_3\<close> and \<open>block_4\<close> have different ids and the same shape, and both emit
  the id 5, to the output array and to the RAG store: \<open>block_3\<close> for the voxel
  \<open>(1, 0, 0)\<close> (label 2, offset 3), \<open>block_4\<close> for the voxel \<open>(0, 0, 2)\<close> (label 1,
  offset 4).
\<close>

theorem blocks_3_and_4_emit_the_same_id:
  "watershed_in_block toy_prims affs_ex False block_3 empty_world True 0 None None
     = Inr \<lparr>fragments_out = [(\<lparr>roi_offset = [2, 0, 0], roi_shape = [2, 1, 1]\<rparr>,
                               NDArray [1, 1, 1] [5])],
            rag_store = [(5, [2, 0, 0])]\<rparr>
   \<and> watershed_in_block toy_prims affs_ex False block_4 empty_world True 0 None None
     = Inr \<lparr>fragments_out = [(\<lparr>roi_offset = [0, 0, 2], roi_shape = [2, 1, 1]\<rparr>,
                               NDArray [1, 1, 1] [5])],
            rag_store = [(5, [0, 0, 2])]\<rparr>
   \<and> block_id block_3 \<noteq> block_id block_4
   \<and> roi_shape (write_roi block_3) = roi_shape (write_roi block_4)
   \<and> roi_shape (requested_write_roi block_3) = roi_shape (requested_write_roi block_4)"
  by code_simp

lemma shared_id_in_array_and_store:
  "5 \<in> array_ids \<lparr>fragments_out = [(\<lparr>roi_offset = [2, 0, 0], roi_shape = [2, 1, 1]\<rparr>,
                                     NDArray [1, 1, 1] [5])],
                   rag_store = [(5, [2, 0, 0])]\<rparr>
       \<inter> array_ids \<lparr>fragments_out = [(\<lparr>roi_offset = [0, 0, 2], roi_shape = [2, 1, 1]\<rparr>,
                                       NDArray [1, 1, 1] [5])],
                     rag_store = [(5, [0, 0, 2])]\<rparr>
   \<and> 5 \<in> node_ids \<lparr>fragments_out = [(\<lparr>roi_offset = [2, 0, 0], roi_shape = [2, 1, 1]\<rparr>,
                                       NDArray [1, 1, 1] [5])],
                     rag_store = [(5, [2, 0, 0])]\<rparr>
       \<inter> node_ids \<lparr>fragments_out = [(\<lparr>roi_offset = [0, 0, 2], roi_shape = [2, 1, 1]\<rparr>,
                                      NDArray [1, 1, 1] [5])],
                    rag_store = [(5, [0, 0, 2])]\<rparr>"
  by (simp add: array_ids_def node_ids_def)

text \<open>
  What the threshold is there for. Let \<open>N\<close> be the number of voxels of the requested
  write region, the factor of the offset. When the threshold \<open>block.write_roi.size()\<close> is
  at most \<open>N\<close> (as with voxels of size 1 and a write region that is the requested
  one), the cropped
  array has at most \<open>N\<close> voxels and the offset does not wrap around, then every id a
  block emits lies from \<open>block_id * N + 1\<close> to \<open>block_id * N + N\<close>, and the ids of two
  blocks with different ids are disjoint.
\<close>

lemma relabel_range:
  assumes "y \<in> set (fst (relabel xs))"
  shows "y \<le> length xs"
proof -
  define old where "old = sort (remdups (filter (\<lambda>x. x \<noteq> 0) xs))"
  define n where "n = length old"
  define new where "new = [1..<Suc n]"
  have "n = length (remdups (filter (\<lambda>x. x \<noteq> 0) xs))" by (simp add: n_def old_def)
  also have "\<dots> \<le> length (filter (\<lambda>x. x \<noteq> 0) xs)" by (rule length_remdups_leq)
  also have "\<dots> \<le> length xs" by (rule length_filter_le)
  finally have n: "n \<le> length xs" .
  have len: "length old = length new" by (simp add: n_def new_def del: upt_Suc)
  have new: "\<forall>v \<in> set new. v \<le> n" by (simp add: new_def del: upt_Suc)
  have "relabel xs = (replace_values xs old new, n)"
    unfolding relabel_def Let_def old_def [symmetric] n_def [symmetric] new_def [symmetric] ..
  then have "y \<in> set (replace_values xs old new)" using assms by simp
  then obtain x where x: "x \<in> set xs"
    "y = (case map_of (zip old new) x of None \<Rightarrow> x | Some y \<Rightarrow> y)"
    unfolding replace_values_def by auto
  show ?thesis
  proof (cases "map_of (zip old new) x")
    case None
    then have "x \<notin> set old" using map_of_zip_is_None [OF len, of x] by simp
    then have "x = 0" using x(1) by (simp add: old_def)
    then show ?thesis using x(2) None by simp
  next
    case (Some y')
    then have "(x, y') \<in> set (zip old new)" by (rule map_of_SomeD)
    then have "y' \<in> set new" by (rule set_zip_rightD)
    then show ?thesis using x(2) Some n new by auto
  qed
qed

lemma compact_ids_bound:
  assumes "compact_ids b xs n = Inr (ys, n')"
    and "roi_size (write_roi b) \<le> N" and "length xs \<le> N"
  shows "\<forall>y \<in> set ys. y \<le> N"
proof (cases "Max (set xs) > roi_size (write_roi b)")
  case True
  then have "ys = fst (relabel xs)"
    using assms(1) by (auto simp: compact_ids_def Let_def split: if_splits)
  then show ?thesis using relabel_range [of _ xs] assms(3) by fastforce
next
  case False
  then have "ys = xs" using assms(1) by (auto simp: compact_ids_def Let_def split: if_splits)
  show ?thesis
  proof
    fix y assume "y \<in> set ys"
    then have "y \<le> Max (set xs)" using \<open>ys = xs\<close> by simp
    then show "y \<le> N" using False assms(2) by linarith
  qed
qed

lemma bump_ids_range:
  assumes "\<forall>y \<in> set ys. y \<le> N" and "bump + N < 2 ^ 64"
  shows "\<forall>x \<in> set (bump_ids bump ys). x = 0 \<or> (bump < x \<and> x \<le> bump + N)"
proof
  fix x assume "x \<in> set (bump_ids bump ys)"
  then obtain y where y: "y \<in> set ys" "x = (if y > 0 then (y + bump) mod 2 ^ 64 else y)"
    by (auto simp: bump_ids_def)
  show "x = 0 \<or> (bump < x \<and> x \<le> bump + N)"
  proof (cases "y > 0")
    case True
    have "y \<le> N" using assms(1) y(1) by simp
    then have "y + bump < 2 ^ 64" using assms(2) by simp
    then have "x = y + bump" using y(2) True by simp
    then show ?thesis using True \<open>y \<le> N\<close> by simp
  next
    case False
    then show ?thesis using y(2) by simp
  qed
qed

lemma fragment_centers_present:
  assumes "(node, c) \<in> set (fragment_centers wr vs A ids)"
  shows "node \<in> set (data A) \<and> node \<noteq> 0"
proof -
  obtain f where "(node, c) \<in> set (case center_of_mass A f of None \<Rightarrow> []
      | Some center \<Rightarrow> [(f, map (\<lambda>((b, v), c). of_int (b + trunc (of_nat v * c)))
                                 (zip (zip (roi_offset wr) vs) center))])"
    using assms by (auto simp: fragment_centers_def)
  then have "center_of_mass A node \<noteq> None"
    by (cases "center_of_mass A f") auto
  then have "filter (\<lambda>i. data A ! i = node) [0..<length (data A)] \<noteq> []" "node \<noteq> 0"
    by (auto simp: center_of_mass_def Let_def split: if_splits)
  then obtain i where "i < length (data A)" "data A ! i = node"
    by (auto simp: filter_empty_conv)
  then show ?thesis using \<open>node \<noteq> 0\<close> by auto
qed

lemma replace_values_subset:
  "set (replace_values xs old new) \<subseteq> set xs \<union> set new"
  by (auto simp: replace_values_def split: option.splits dest!: map_of_SomeD set_zip_rightD)

lemma block_ids_in_range:
  assumes "watershed_in_block P affs affs_uint8 b empty_world fragments_in_xy epsilon_agglomerate
             mask_data myelin = Inr w"
    and "extract_in_block P affs affs_uint8 b fragments_in_xy epsilon_agglomerate mask_data
           = Inr (fragments, n)"
    and "roi_size (requested_write_roi b) div prod_list (arr_voxel_size fragments) = N"
    and "roi_size (write_roi b) \<le> N"
    and "length (data (arr_data fragments)) \<le> N"
    and "block_id b * N + N < 2 ^ 64"
  shows "array_ids w \<union> node_ids w \<subseteq> {block_id b * N <.. block_id b * N + N}"
proof -
  obtain compacted n' where c: "compact_ids b (data (arr_data fragments)) n = Inr (compacted, n')"
  proof (cases "compact_ids b (data (arr_data fragments)) n")
    case (Inl e)
    then show ?thesis using assms(1) by (simp add: watershed_in_block_def assms(2))
  next
    case (Inr p)
    then show ?thesis using that by (cases p) simp
  qed
  have "prod_list (arr_voxel_size fragments) \<noteq> 0"
  proof
    assume "prod_list (arr_voxel_size fragments) = 0"
    then have "id_bump b (arr_voxel_size fragments) = Inl ZeroDivisionError"
      by (simp add: id_bump_def)
    then show False using assms(1) by (simp add: watershed_in_block_def assms(2) c)
  qed
  then have bm: "id_bump b (arr_voxel_size fragments) = Inr (block_id b * N)"
    using assms(3) by (simp add: id_bump_def Let_def)
  have fits: "\<not> 2 ^ 64 \<le> block_id b * N"
    using assms(6) by simp
  define bumped where "bumped = bump_ids (block_id b * N) compacted"
  have rng: "\<forall>x \<in> set bumped. x = 0 \<or> (block_id b * N < x \<and> x \<le> block_id b * N + N)"
    unfolding bumped_def
    using bump_ids_range [OF compact_ids_bound [OF c assms(4,5)] assms(6)] .
  show ?thesis
  proof (cases "n' = 0")
    case True
    then have "w = empty_world"
      using assms(1) fits by (simp add: watershed_in_block_def assms(2) c bm)
    then show ?thesis by (simp add: array_ids_def node_ids_def empty_world_def)
  next
    case False
    define A where "A = NDArray (shape (arr_data fragments)) bumped"
    define centers where "centers = fragment_centers (write_roi b) (arr_voxel_size fragments) A
      [block_id b * N + 1..<block_id b * N + 1 + n']"
    obtain stored centers' where
      w: "w = \<lparr>fragments_out = [(write_roi b, stored)],
               rag_store = filter (\<lambda>(node, c). roi_contains_point (write_roi b) c) centers'\<rparr>"
      and st: "set (data stored) \<subseteq> insert 0 (set bumped)"
      and ce: "set centers' \<subseteq> set centers"
    proof (cases myelin)
      case None
      have "w = \<lparr>fragments_out = [(write_roi b, A)],
                rag_store = filter (\<lambda>(node, c). roi_contains_point (write_roi b) c) centers\<rparr>"
        using assms(1) False None fits
        by (simp add: watershed_in_block_def assms(2) c bm write_nodes_def Let_def bumped_def
            A_def centers_def empty_world_def)
      then show ?thesis using that [of A centers] by (auto simp: A_def)
    next
      case (Some is_myelin)
      define ms where "ms = map fst (filter (\<lambda>(node, c). is_myelin node c) centers)"
      have "w = \<lparr>fragments_out = [(write_roi b,
                    NDArray (shape A) (replace_values (data A) ms (map (\<lambda>i. 0) ms)))],
                rag_store = filter (\<lambda>(node, c). roi_contains_point (write_roi b) c)
                              (filter (\<lambda>(node, c). node \<notin> set ms) centers)\<rparr>"
        using assms(1) False Some fits
        by (simp add: watershed_in_block_def assms(2) c bm write_nodes_def Let_def bumped_def
            A_def centers_def ms_def empty_world_def)
      moreover have "set (replace_values (data A) ms (map (\<lambda>i. 0) ms)) \<subseteq> insert 0 (set bumped)"
        using replace_values_subset [of "data A" ms "map (\<lambda>i. 0) ms"] by (auto simp: A_def)
      ultimately show ?thesis
        using that [of "NDArray (shape A) (replace_values (data A) ms (map (\<lambda>i. 0) ms))"
            "filter (\<lambda>(node, c). node \<notin> set ms) centers"]
        by simp
    qed
    have 1: "array_ids w \<subseteq> {block_id b * N <.. block_id b * N + N}"
    proof
      fix x assume "x \<in> array_ids w"
      then have "x \<noteq> 0" "x \<in> set (data stored)" by (auto simp: w array_ids_def)
      then have "x \<in> set bumped" using st by auto
      then show "x \<in> {block_id b * N <.. block_id b * N + N}"
        using rng \<open>x \<noteq> 0\<close> by auto
    qed
    have "node \<in> {block_id b * N <.. block_id b * N + N}" if h: "node \<in> node_ids w" for node
    proof -
      from h obtain c' where "(node, c') \<in> set centers'" by (auto simp: w node_ids_def)
      then have "(node, c') \<in> set centers" using ce by blast
      then have "node \<in> set (data A) \<and> node \<noteq> 0"
        unfolding centers_def by (rule fragment_centers_present)
      then have "node \<in> set bumped" "node \<noteq> 0" by (simp_all add: A_def)
      then show ?thesis using rng by auto
    qed
    then show ?thesis using 1 by blast
  qed
qed


lemma block_ids_disjoint:
  assumes "watershed_in_block P affs affs_uint8 b1 empty_world fragments_in_xy epsilon_agglomerate
             mask_data myelin = Inr w1"
    and "watershed_in_block P affs affs_uint8 b2 empty_world fragments_in_xy epsilon_agglomerate
           mask_data myelin = Inr w2"
    and "extract_in_block P affs affs_uint8 b1 fragments_in_xy epsilon_agglomerate mask_data
           = Inr (fragments1, n1)"
    and "extract_in_block P affs affs_uint8 b2 fragments_in_xy epsilon_agglomerate mask_data
           = Inr (fragments2, n2)"
    and "roi_size (requested_write_roi b1) div prod_list (arr_voxel_size fragments1) = N"
    and "roi_size (requested_write_roi b2) div prod_list (arr_voxel_size fragments2) = N"
    and "roi_size (write_roi b1) \<le> N" and "roi_size (write_roi b2) \<le> N"
    and "length (data (arr_data fragments1)) \<le> N"
    and "length (data (arr_data fragments2)) \<le> N"
    and "block_id b1 < block_id b2" and "block_id b2 * N + N < 2 ^ 64"
  shows "(array_ids w1 \<union> node_ids w1) \<inter> (array_ids w2 \<union> node_ids w2) = {}"
proof -
  have le: "block_id b1 * N + N \<le> block_id b2 * N"
  proof -
    have "Suc (block_id b1) * N \<le> block_id b2 * N"
      using assms(11) by (intro mult_le_mono1) simp
    then show ?thesis by simp
  qed
  then have "block_id b1 * N + N < 2 ^ 64" using assms(12) by linarith
  then have 1: "array_ids w1 \<union> node_ids w1 \<subseteq> {block_id b1 * N <.. block_id b1 * N + N}"
    using block_ids_in_range [OF assms(1) assms(3) assms(5) assms(7) assms(9)] by simp
  have 2: "array_ids w2 \<union> node_ids w2 \<subseteq> {block_id b2 * N <.. block_id b2 * N + N}"
    using block_ids_in_range [OF assms(2) assms(4) assms(6) assms(8) assms(10) assms(12)] .
  have "{block_id b1 * N <.. block_id b1 * N + N} \<inter> {block_id b2 * N <.. block_id b2 * N + N} = {}"
    using le by auto
  then show ?thesis using 1 2 by blast
qed

section \<open>Blocks without fragments\<close>

lemma center_of_mass_absent:
  assumes "\<forall>x \<in> set (data A). x = 0"
  shows "center_of_mass A f = None"
proof (cases "f = 0")
  case True
  then show ?thesis by (simp add: center_of_mass_def)
next
  case False
  have "data A ! i \<noteq> f" if "i < length (data A)" for i
  proof -
    have "data A ! i = 0" using assms that nth_mem by blast
    then show ?thesis using False by simp
  qed
  then have "filter (\<lambda>i. data A ! i = f) [0..<length (data A)] = []"
    by (simp add: filter_empty_conv)
  then show ?thesis by (simp add: center_of_mass_def)
qed

lemma fragment_centers_absent:
  assumes "\<forall>x \<in> set (data A). x = 0"
  shows "fragment_centers wr vs A ids = []"
  by (simp add: fragment_centers_def center_of_mass_absent [OF assms])

lemma bump_ids_background:
  assumes "\<forall>x \<in> set xs. x = 0"
  shows "bump_ids bump xs = xs"
  unfolding bump_ids_def using assms by (intro map_idI) auto

text \<open>
  C3, as amended. If every label of the write region of a block is 0 after extraction,
  masking and cropping (the block has no fragments; the write region holds a voxel and
  the offset of the block fits in 64 bits), \<open>watershed_in_block\<close> returns normally and
  adds no node to the RAG store; to the output array it writes the all-zero labels of the
  write region, or nothing when the extraction counted no seed. \<open>block_done\<close> reports
  after the call what it reported before it: a block without fragments counts as done
  only if the store held a node with its center in the write region already.
\<close>

theorem no_fragments_no_nodes:
  assumes "extract_in_block P affs affs_uint8 b fragments_in_xy epsilon_agglomerate mask_data
             = Inr (fragments, n)"
    and "data (arr_data fragments) \<noteq> []"
    and "\<forall>x \<in> set (data (arr_data fragments)). x = 0"
    and "prod_list (arr_voxel_size fragments) \<noteq> 0"
    and "block_id b * (roi_size (requested_write_roi b) div prod_list (arr_voxel_size fragments))
           < 2 ^ 64"
  shows "\<exists>w'. watershed_in_block P affs affs_uint8 b w fragments_in_xy epsilon_agglomerate
                 mask_data myelin = Inr w'
           \<and> rag_store w' = rag_store w
           \<and> fragments_out w' =
               (if n = 0 then fragments_out w
                else fragments_out w @ [(write_roi b, arr_data fragments)])
           \<and> (block_done b w' \<longleftrightarrow> block_done b w)"
proof -
  define bump where
    "bump = block_id b * (roi_size (requested_write_roi b) div prod_list (arr_voxel_size fragments))"
  define xs where "xs = data (arr_data fragments)"
  have "Max (set xs) = 0"
    using assms(2,3) unfolding xs_def by (metis List.finite_set Max_in set_empty)
  then have c: "compact_ids b (data (arr_data fragments)) n = Inr (xs, n)"
    using assms(2) by (simp add: compact_ids_def xs_def)
  have bm: "id_bump b (arr_voxel_size fragments) = Inr bump"
    using assms(4) by (simp add: id_bump_def Let_def bump_def)
  have fits: "\<not> 2 ^ 64 \<le> bump"
    using assms(5) by (simp add: bump_def)
  have bg: "bump_ids bump xs = xs"
    using assms(3) by (simp add: bump_ids_background xs_def)
  have A: "NDArray (shape (arr_data fragments)) xs = arr_data fragments"
    by (simp add: xs_def)
  have ce: "fragment_centers (write_roi b) (arr_voxel_size fragments) (arr_data fragments) ids = []"
    for ids
    using assms(3) by (rule fragment_centers_absent)
  define w' where
    "w' = (if n = 0 then w
           else w\<lparr>fragments_out := fragments_out w @ [(write_roi b, arr_data fragments)]\<rparr>)"
  have run: "watershed_in_block P affs affs_uint8 b w fragments_in_xy epsilon_agglomerate
               mask_data myelin = Inr w'"
  proof (cases myelin)
    case None
    then show ?thesis
      using fits by (simp add: watershed_in_block_def assms(1) c bm bg A ce write_nodes_def w'_def)
  next
    case (Some is_myelin)
    then show ?thesis
      using fits
      by (simp add: watershed_in_block_def assms(1) c bm bg A ce write_nodes_def w'_def
          replace_values_def)
  qed
  have st: "rag_store w' = rag_store w" by (simp add: w'_def)
  have "block_done b w' \<longleftrightarrow> block_done b w"
    by (simp add: block_done_def num_nodes_def st)
  moreover have "fragments_out w' =
      (if n = 0 then fragments_out w
       else fragments_out w @ [(write_roi b, arr_data fragments)])"
    by (simp add: w'_def)
  ultimately show ?thesis using run st by blast
qed

lemma extract_block_7_out:
  "extract_in_block toy_prims affs_small False block_7 True 0 (Some mask_out)
   = Inr (\<lparr>arr_data = NDArray [2, 1, 1] [0, 0],
            arr_roi = \<lparr>roi_offset = [0, 0, 0], roi_shape = [2, 1, 1]\<rparr>,
            arr_voxel_size = [1, 1, 1]\<rparr>, 2)"
  by code_simp

lemma block_7_done_before:
  "block_done block_7 \<lparr>fragments_out = [], rag_store = [(15, [0, 0, 0])]\<rparr>"
  by code_simp

theorem no_fragments_no_nodes_witness:
  "\<exists>w'. watershed_in_block toy_prims affs_small False block_7
           \<lparr>fragments_out = [], rag_store = [(15, [0, 0, 0])]\<rparr> True 0 (Some mask_out) None
           = Inr w'
       \<and> rag_store w' = [(15, [0, 0, 0])]
       \<and> fragments_out w' = [(write_roi block_7, NDArray [2, 1, 1] [0, 0])]
       \<and> block_done block_7 w'"
  using no_fragments_no_nodes [OF extract_block_7_out,
      of "\<lparr>fragments_out = [], rag_store = [(15, [0, 0, 0])]\<rparr>" None]
    block_7_done_before
  by (simp add: block_7_def roi_size_def)

text \<open>
  The claim as stated fails: on a masked-out block and a store without nodes the
  extraction leaves no fragment (it counts two seeds, whose labels the mask removes),
  \<open>watershed_in_block\<close> writes the all-zero labels to the output array and no node to the
  store, and \<open>block_done\<close> reports the block as not done.
\<close>

theorem masked_out_block_not_done:
  "extract_in_block toy_prims affs_small False block_7 True 0 (Some mask_out)
     = Inr (\<lparr>arr_data = NDArray [2, 1, 1] [0, 0],
              arr_roi = \<lparr>roi_offset = [0, 0, 0], roi_shape = [2, 1, 1]\<rparr>,
              arr_voxel_size = [1, 1, 1]\<rparr>, 2)
   \<and> watershed_in_block toy_prims affs_small False block_7 empty_world True 0 (Some mask_out) None
     = Inr \<lparr>fragments_out = [(\<lparr>roi_offset = [0, 0, 0], roi_shape = [2, 1, 1]\<rparr>,
                               NDArray [2, 1, 1] [0, 0])],
            rag_store = []\<rparr>
   \<and> \<not> block_done block_7
         \<lparr>fragments_out = [(\<lparr>roi_offset = [0, 0, 0], roi_shape = [2, 1, 1]\<rparr>,
                            NDArray [2, 1, 1] [0, 0])],
          rag_store = []\<rparr>"
  by code_simp


section \<open>Labels of the depth slices\<close>

lemma slice_of_update:
  assumes "length xs = d * m" and "length s = m" and "i < d" and "z < d"
  shows "take m (drop (z * m) (take (i * m) xs @ s @ drop (Suc i * m) xs))
         = (if z = i then s else take m (drop (z * m) xs))"
proof -
  have li: "length (take (i * m) xs) = i * m"
    using assms(1,3) by (simp add: min_def)
  consider "z = i" | "z < i" | "i < z" by linarith
  then show ?thesis
  proof cases
    case 1
    then show ?thesis using li assms(2) by simp
  next
    case 2
    then have le: "z * m + m \<le> i * m"
      by (metis Suc_leI mult_Suc mult_le_mono1 add.commute)
    have "take m (drop (z * m) (take (i * m) xs @ s @ drop (Suc i * m) xs))
          = take m (drop (z * m) (take (i * m) xs))"
      using li le by simp
    also have "\<dots> = take m (drop (z * m) xs)"
      using le by (simp add: drop_take min_def)
    finally show ?thesis using 2 by simp
  next
    case 3
    then have le: "Suc i * m \<le> z * m"
      by (simp add: Suc_leI mult_le_mono1 del: mult_Suc)
    have "drop (z * m) (take (i * m) xs @ s @ drop (Suc i * m) xs)
          = drop (z * m - Suc i * m) (drop (Suc i * m) xs)"
      using li le assms(2) 3 by simp
    also have "\<dots> = drop (z * m) xs"
      using le by simp
    finally show ?thesis using 3 by simp
  qed
qed


lemma wrap_int32_small:
  assumes "k < 2 ^ 31"
  shows "wrap_int32 (int k) = int k"
proof -
  have "int k < 2 ^ 31" using assms by (metis of_nat_less_iff of_nat_numeral of_nat_power)
  then have "(int k + 2 ^ 31) mod 2 ^ 32 = int k + 2 ^ 31"
    by (intro mod_pos_pos_trivial) simp_all
  then show ?thesis by (simp add: wrap_int32_def)
qed

lemma to_uint64_small:
  assumes "k < 2 ^ 31"
  shows "to_uint64 (int k) = k"
proof -
  have "int k < 2 ^ 31" using assms by (metis of_nat_less_iff of_nat_numeral of_nat_power)
  then have "int k mod 2 ^ 64 = int k"
    by (intro mod_pos_pos_trivial) simp_all
  then show ?thesis by (simp add: to_uint64_def)
qed

lemma flooded_labels_range:
  assumes "watershed_contract P"
    and "\<forall>x \<in> set (data seeds). x = 0 \<or> (\<exists>k. x = int k \<and> lo < k \<and> k \<le> hi)"
    and "hi < 2 ^ 31"
  shows "\<forall>y \<in> set (data (map_nd to_uint64 (mahotas_cwatershed P surface seeds))).
           y = 0 \<or> (lo < y \<and> y \<le> hi)"
proof
  fix y assume "y \<in> set (data (map_nd to_uint64 (mahotas_cwatershed P surface seeds)))"
  then obtain x where x: "x \<in> set (data (mahotas_cwatershed P surface seeds))" "y = to_uint64 x"
    by (auto simp: map_nd_def)
  have "x \<in> insert 0 (set (data seeds))"
    using assms(1) x(1) unfolding watershed_contract_def by blast
  then consider "x = 0" | k where "x = int k" "lo < k" "k \<le> hi"
    using assms(2) by auto
  then show "y = 0 \<or> (lo < y \<and> y \<le> hi)"
  proof cases
    case 1
    then show ?thesis using x(2) by (simp add: to_uint64_def)
  next
    case 2
    then have "k < 2 ^ 31" using assms(3) by simp
    then have "y = k" using x(2) 2(1) by (simp add: to_uint64_small)
    then show ?thesis using 2 by simp
  qed
qed

lemma get_seeds_range:
  assumes "label_contract P" and "get_seeds P boundary next_id = (seeds, num_seeds)"
    and "next_id + num_seeds < 2 ^ 31"
  shows "\<forall>x \<in> set (data seeds).
           x = 0 \<or> (\<exists>k. x = int k \<and> next_id < k \<and> k \<le> next_id + num_seeds)"
proof -
  obtain L where L: "mahotas_label P (mahotas_regmax P (mahotas_distance P
                        (map_nd (\<lambda>b. b < 1 / 2) boundary))) = (L, num_seeds)"
    and s: "seeds = map_nd (\<lambda>s. if s = int next_id then 0 else s)
                      (map_nd (\<lambda>s. wrap_int32 (int s + int next_id)) L)"
    using assms(2) by (auto simp: get_seeds_def Let_def split: prod.splits)
  have Lr: "\<forall>x \<in> set (data L). x \<le> num_seeds"
    using assms(1) L unfolding label_contract_def by (metis fst_conv snd_conv)
  show ?thesis
  proof
    fix x assume "x \<in> set (data seeds)"
    then obtain l where l: "l \<in> set (data L)"
      "x = (if wrap_int32 (int l + int next_id) = int next_id then 0
            else wrap_int32 (int l + int next_id))"
      unfolding s by (auto simp: map_nd_def)
    have "l + next_id < 2 ^ 31" using Lr l(1) assms(3) by fastforce
    then have w: "wrap_int32 (int l + int next_id) = int (l + next_id)"
      using wrap_int32_small [of "l + next_id"] by simp
    show "x = 0 \<or> (\<exists>k. x = int k \<and> next_id < k \<and> k \<le> next_id + num_seeds)"
    proof (cases "l = 0")
      case True
      then show ?thesis using l(2) w by simp
    next
      case False
      then have "x = int (l + next_id)" using l(2) w by simp
      moreover have "next_id < l + next_id" "l + next_id \<le> next_id + num_seeds"
        using False Lr l(1) by auto
      ultimately show ?thesis by blast
    qed
  qed
qed

lemma wfbd_range:
  assumes "label_contract P" and "watershed_contract P"
    and "watershed_from_boundary_distance P bd rs id_offset = Inr ret"
    and "ret_max_id ret < 2 ^ 31"
  shows "id_offset \<le> ret_max_id ret \<and>
         (\<forall>x \<in> set (data (ret_fragments ret)). x = 0 \<or> (id_offset < x \<and> x \<le> ret_max_id ret))"
proof -
  obtain L n where L: "mahotas_label P (map2_nd (=) (maximum_filter P bd 10) bd) = (L, n)"
    by fastforce
  have Lr: "\<forall>x \<in> set (data L). x \<le> n"
    using assms(1) L unfolding label_contract_def by (metis fst_conv snd_conv)
  show ?thesis
  proof (cases "n = 0")
    case True
    then show ?thesis using assms(3) L
      by (auto simp: watershed_from_boundary_distance_def zeros_def)
  next
    case False
    define seeds where
      "seeds = map_nd (\<lambda>s. if s \<noteq> 0 then wrap_int32 (int s + int id_offset) else 0) L"
    obtain surface where
      f: "ret_fragments ret = map_nd to_uint64 (mahotas_cwatershed P surface seeds)"
      and m: "ret_max_id ret = n + id_offset"
      using assms(3) L False
      by (auto simp: watershed_from_boundary_distance_def Let_def seeds_def split: if_splits)
    have hi: "n + id_offset < 2 ^ 31" using assms(4) m by simp
    have sr: "\<forall>x \<in> set (data seeds).
                x = 0 \<or> (\<exists>k. x = int k \<and> id_offset < k \<and> k \<le> n + id_offset)"
    proof
      fix x assume "x \<in> set (data seeds)"
      then obtain l where l: "l \<in> set (data L)"
        "x = (if l \<noteq> 0 then wrap_int32 (int l + int id_offset) else 0)"
        by (auto simp: seeds_def map_nd_def)
      have "l + id_offset < 2 ^ 31" using Lr l(1) hi by fastforce
      then have w: "wrap_int32 (int l + int id_offset) = int (l + id_offset)"
        using wrap_int32_small [of "l + id_offset"] by simp
      show "x = 0 \<or> (\<exists>k. x = int k \<and> id_offset < k \<and> k \<le> n + id_offset)"
      proof (cases "l = 0")
        case True
        then show ?thesis using l(2) by simp
      next
        case False
        then have "x = int (l + id_offset)" using l(2) w by simp
        moreover have "id_offset < l + id_offset" "l + id_offset \<le> n + id_offset"
          using False Lr l(1) by auto
        ultimately show ?thesis by blast
      qed
    qed
    show ?thesis
      using flooded_labels_range [OF assms(2) sr hi, of surface] f m by simp
  qed
qed

lemma xy_slice_range:
  assumes "label_contract P" and "watershed_contract P"
    and "xy_slice P use_mahotas mx mean_affs z id_offset = Inr (f, id_offset')"
    and "id_offset' < 2 ^ 31"
  shows "id_offset \<le> id_offset' \<and>
         (\<forall>x \<in> set (data f). x = 0 \<or> (id_offset < x \<and> x \<le> id_offset'))"
proof (cases use_mahotas)
  case True
  then obtain inv_z seeds num_seeds where
    g: "get_seeds P inv_z id_offset = (seeds, num_seeds)"
    and f: "f = map_nd to_uint64 (mahotas_cwatershed P inv_z seeds)"
    and o: "id_offset' = id_offset + num_seeds"
    using assms(3) by (auto simp: xy_slice_def Let_def split: sum.splits prod.splits)
  have hi: "id_offset + num_seeds < 2 ^ 31" using assms(4) o by simp
  show ?thesis
    using flooded_labels_range [OF assms(2) get_seeds_range [OF assms(1) g hi] hi, of inv_z] f o
    by simp
next
  case False
  then obtain bd ret where
    w: "watershed_from_boundary_distance P bd False id_offset = Inr ret"
    and f: "f = ret_fragments ret" and o: "id_offset' = ret_max_id ret"
    using assms(3) by (auto simp: xy_slice_def Let_def split: sum.splits)
  have "ret_max_id ret < 2 ^ 31" using assms(4) o by simp
  then show ?thesis using wfbd_range [OF assms(1,2) w] f o by simp
qed

lemma getitem_setitem:
  assumes "setitem A i S = Inr A'" and "shape A = d # sh"
    and "length (data A) = d * prod_list sh" and "z < d"
  shows "shape A' = d # sh \<and> length (data A') = d * prod_list sh \<and> i < d \<and>
         getitem A' z = (if z = i then Inr (NDArray sh (data S)) else getitem A z)"
proof -
  have i: "i < d" and S: "length (data S) = prod_list sh"
    and A': "A' = NDArray (d # sh) (take (i * prod_list sh) (data A) @ data S @
                    drop (Suc i * prod_list sh) (data A))"
    using assms(1,2) by (auto simp: setitem_def split: if_splits)
  have len: "length (data A') = d * prod_list sh"
  proof -
    have "i * prod_list sh + prod_list sh \<le> d * prod_list sh"
      using i by (metis Suc_leI mult_Suc mult_le_mono1 add.commute)
    then show ?thesis using assms(3) S by (simp add: A' min_def)
  qed
  have "take (prod_list sh) (drop (z * prod_list sh) (data A'))
        = (if z = i then data S else take (prod_list sh) (drop (z * prod_list sh) (data A)))"
    unfolding A' using slice_of_update [OF assms(3) S i assms(4)] by simp
  then show ?thesis using i len assms(2,4) by (simp add: getitem_def A')
qed

lemma xy_loop_invariant:
  assumes "label_contract P" and "watershed_contract P"
    and "xy_loop P use_mahotas mx mean_affs zs id_offset fragments = Inr (fragments', id_offset')"
    and "shape fragments = d # sh" and "length (data fragments) = d * prod_list sh"
    and "distinct zs" and "id_offset' < 2 ^ 31"
  shows "id_offset \<le> id_offset' \<and> shape fragments' = d # sh \<and>
         length (data fragments') = d * prod_list sh \<and>
         (\<forall>z < d. z \<notin> set zs \<longrightarrow> getitem fragments' z = getitem fragments z) \<and>
         (\<forall>z \<in> set zs. z < d \<and> (\<exists>s. getitem fragments' z = Inr s \<and>
              (\<forall>x \<in> labels_of s. id_offset < x \<and> x \<le> id_offset'))) \<and>
         (\<forall>z1 \<in> set zs. \<forall>z2 \<in> set zs. z1 \<noteq> z2 \<longrightarrow>
            (\<forall>s1 s2. getitem fragments' z1 = Inr s1 \<longrightarrow> getitem fragments' z2 = Inr s2 \<longrightarrow>
               labels_of s1 \<inter> labels_of s2 = {}))"
  using assms(3-)
proof (induction zs arbitrary: id_offset fragments)
  case Nil
  then show ?case by simp
next
  case (Cons z zs)
  obtain f off1 F1 where
    sl: "xy_slice P use_mahotas mx mean_affs z id_offset = Inr (f, off1)"
    and st: "setitem fragments z f = Inr F1"
    and lp: "xy_loop P use_mahotas mx mean_affs zs off1 F1 = Inr (fragments', id_offset')"
    using Cons.prems(1) by (auto split: sum.splits prod.splits)
  have zd: "z < d" using st Cons.prems(2) by (auto simp: setitem_def split: if_splits)
  note gs = getitem_setitem [OF st Cons.prems(2,3)]
  have F1: "shape F1 = d # sh" "length (data F1) = d * prod_list sh"
    using gs [OF zd] by simp_all
  have dz: "distinct zs" "z \<notin> set zs" using Cons.prems(4) by simp_all
  note IH = Cons.IH [OF lp F1 dz(1) Cons.prems(5)]
  have "off1 \<le> id_offset'" using IH by (rule conjunct1)
  then have "off1 < 2 ^ 31" using Cons.prems(5) by simp
  note rg = xy_slice_range [OF assms(1,2) sl this]
  have gz: "getitem fragments' z = Inr (NDArray sh (data f))"
    using IH zd dz(2) gs [OF zd] by simp
  have lz: "\<forall>x \<in> labels_of (NDArray sh (data f)). id_offset < x \<and> x \<le> off1"
    using rg by (auto simp: labels_of_def)
  have le: "id_offset \<le> off1" "off1 \<le> id_offset'" using rg IH by simp_all
  have 1: "id_offset \<le> id_offset'" using le by simp
  have 2: "\<forall>z' < d. z' \<notin> set (z # zs) \<longrightarrow> getitem fragments' z' = getitem fragments z'"
    using IH gs by simp
  have 3: "\<forall>z' \<in> set (z # zs). z' < d \<and> (\<exists>s. getitem fragments' z' = Inr s \<and>
              (\<forall>x \<in> labels_of s. id_offset < x \<and> x \<le> id_offset'))"
  proof
    fix z' assume "z' \<in> set (z # zs)"
    then consider "z' = z" | "z' \<in> set zs" by auto
    then show "z' < d \<and> (\<exists>s. getitem fragments' z' = Inr s \<and>
              (\<forall>x \<in> labels_of s. id_offset < x \<and> x \<le> id_offset'))"
    proof cases
      case 1
      then show ?thesis using zd gz lz le by fastforce
    next
      case 2
      then obtain s where "z' < d" "getitem fragments' z' = Inr s"
        "\<forall>x \<in> labels_of s. off1 < x \<and> x \<le> id_offset'"
        using IH by blast
      then show ?thesis using le by fastforce
    qed
  qed
  have 4: "\<forall>z1 \<in> set (z # zs). \<forall>z2 \<in> set (z # zs). z1 \<noteq> z2 \<longrightarrow>
            (\<forall>s1 s2. getitem fragments' z1 = Inr s1 \<longrightarrow> getitem fragments' z2 = Inr s2 \<longrightarrow>
               labels_of s1 \<inter> labels_of s2 = {})"
  proof (intro ballI impI allI)
    fix z1 z2 s1 s2
    assume a: "z1 \<in> set (z # zs)" "z2 \<in> set (z # zs)" "z1 \<noteq> z2"
      "getitem fragments' z1 = Inr s1" "getitem fragments' z2 = Inr s2"
    have old: "\<And>z' s. z' \<in> set zs \<Longrightarrow> getitem fragments' z' = Inr s \<Longrightarrow>
                 \<forall>x \<in> labels_of s. off1 < x"
      using IH by fastforce
    consider "z1 = z" "z2 \<in> set zs" | "z2 = z" "z1 \<in> set zs" | "z1 \<in> set zs" "z2 \<in> set zs"
      using a(1-3) by auto
    then show "labels_of s1 \<inter> labels_of s2 = {}"
    proof cases
      case 1
      then have "s1 = NDArray sh (data f)" using gz a(4) by simp
      then show ?thesis using lz old [OF 1(2) a(5)] by fastforce
    next
      case 2
      then have "s2 = NDArray sh (data f)" using gz a(5) by simp
      then show ?thesis using lz old [OF 2(2) a(4)] by fastforce
    next
      case 3
      then show ?thesis using IH a(3-5) by blast
    qed
  qed
  show ?case using 1 2 3 4 IH by simp
qed

text \<open>
  C5, as amended. When \<open>fragments_in_xy\<close> is true and no agglomeration is asked for
  (\<open>epsilon_agglomerate\<close> not positive, the default), \<open>watershed_from_affinities\<close> gives
  two different depth slices \<open>fragments[z1]\<close> and \<open>fragments[z2]\<close> of its result disjoint
  sets of labels other than 0, and no label exceeds the id offset it returns, as long as
  that offset is below \<open>2 ^ 31\<close>: the seeds of a slice are numbered in a signed 32-bit
  array. The primitives are assumed to label within their count and to flood with the
  values of the seeds.
\<close>

theorem xy_slices_disjoint:
  assumes "label_contract P" and "watershed_contract P"
    and "watershed_from_affinities P affs affs_uint8 True epsilon_agglomerate use_mahotas
           = Inr (fragments, n)"
    and "\<not> 0 < epsilon_agglomerate" and "n < 2 ^ 31"
    and "getitem fragments z1 = Inr s1" and "getitem fragments z2 = Inr s2" and "z1 \<noteq> z2"
  shows "labels_of s1 \<inter> labels_of s2 = {}
       \<and> (\<forall>x \<in> labels_of s1 \<union> labels_of s2. x \<le> n)"
proof -
  have ex: "extract_xy P use_mahotas (if affs_uint8 then 255 else 1) affs = Inr (fragments, n)"
    using assms(3,4)
    by (auto simp: watershed_from_affinities_def Let_def split: sum.splits)
  obtain mean_affs depth sh where sh: "shape mean_affs = depth # sh"
    and lp: "xy_loop P use_mahotas (if affs_uint8 then 255 else 1) mean_affs [0..<depth] 0
               (zeros (depth # sh)) = Inr (fragments, n)"
    using ex
    by (auto simp: extract_xy_def Let_def split: sum.splits list.splits)
  have z: "shape (zeros (depth # sh) :: label ndarray) = depth # sh"
    "length (data (zeros (depth # sh) :: label ndarray)) = depth * prod_list sh"
    by (simp_all add: zeros_def)
  note inv = xy_loop_invariant [OF assms(1,2) lp z distinct_upt assms(5)]
  have fs: "shape fragments = depth # sh"
    using inv by (rule conjunct2 [THEN conjunct1])
  have z1: "z1 \<in> set [0..<depth]" and z2: "z2 \<in> set [0..<depth]"
    using assms(6,7) fs by (auto simp: getitem_def split: if_splits)
  note rng = inv [THEN conjunct2, THEN conjunct2, THEN conjunct2, THEN conjunct2,
      THEN conjunct1, rule_format]
  note dis = inv [THEN conjunct2, THEN conjunct2, THEN conjunct2, THEN conjunct2,
      THEN conjunct2, rule_format]
  have d: "labels_of s1 \<inter> labels_of s2 = {}"
    using dis [OF z1 z2 assms(8) assms(6) assms(7)] .
  have b1: "\<forall>x \<in> labels_of s1. x \<le> n"
    using rng [OF z1] assms(6) by auto
  have b2: "\<forall>x \<in> labels_of s2. x \<le> n"
    using rng [OF z2] assms(7) by auto
  have b: "\<forall>x \<in> labels_of s1 \<union> labels_of s2. x \<le> n"
    using b1 b2 by blast
  show ?thesis using d b by blast
qed

lemma toy_prims_contracts: "label_contract toy_prims" "watershed_contract toy_prims"
  by (auto simp: label_contract_def watershed_contract_def toy_prims_def toy_label_def
      map_nd_def)

lemma wfa_two_slices:
  "watershed_from_affinities toy_prims (NDArray [3, 2, 1, 1] [1, 1, 1, 1, 1, 1])
     False True 0 True = Inr (NDArray [2, 1, 1] [1, 2], 2)"
  "getitem (NDArray [2, 1, 1] [1, 2 :: nat]) 0 = Inr (NDArray [1, 1] [1])"
  "getitem (NDArray [2, 1, 1] [1, 2 :: nat]) 1 = Inr (NDArray [1, 1] [2])"
  by code_simp+

theorem xy_slices_disjoint_witness:
  "labels_of (NDArray [1, 1] [1]) \<inter> labels_of (NDArray [1, 1] [2]) = {}
   \<and> labels_of (NDArray [1, 1] [1]) = {1}
   \<and> labels_of (NDArray [1, 1] [2]) = {2}
   \<and> watershed_from_affinities toy_prims (NDArray [3, 2, 1, 1] [1, 1, 1, 1, 1, 1])
        False True 0 True = Inr (NDArray [2, 1, 1] [1, 2], 2)"
  using xy_slices_disjoint [OF toy_prims_contracts wfa_two_slices(1) _ _ wfa_two_slices(2,3)]
    wfa_two_slices(1)
  by (simp add: labels_of_def)

text \<open>
  The claim as stated fails with a positive \<open>epsilon_agglomerate\<close>: the agglomeration pass
  works on the whole volume and merges fragments of different slices. On a volume of two
  slices of one voxel with all affinities 1, the extraction labels the slices 1 and 2, the
  agglomeration to the threshold \<open>1/10\<close> merges the two fragments, and both slices of the
  result carry the label 1 (while the returned id offset stays 2).
\<close>

theorem agglomeration_merges_slices:
  "watershed_from_affinities toy_prims (NDArray [3, 2, 1, 1] [1, 1, 1, 1, 1, 1])
     False True (1 / 10) True = Inr (NDArray [2, 1, 1] [1, 1], 2)
   \<and> getitem (NDArray [2, 1, 1] [1, 1 :: nat]) 0 = Inr (NDArray [1, 1] [1])
   \<and> getitem (NDArray [2, 1, 1] [1, 1 :: nat]) 1 = Inr (NDArray [1, 1] [1])
   \<and> (1 :: nat) \<in> labels_of (NDArray [1, 1] [1]) \<inter> labels_of (NDArray [1, 1] [1])"
  by code_simp

section \<open>Connected components of the merged edges\<close>

lemma inside_mono: "U \<subseteq> V \<Longrightarrow> inside E U \<subseteq> inside E V"
  by (auto simp: inside_def)

lemma path_avoiding:
  assumes "(x, w) \<in> (inside E U)\<^sup>*"
  shows "w = v \<or> (x \<noteq> v \<and> (x, w) \<in> (inside E (U - {v}))\<^sup>*)
         \<or> (\<exists>y. (v, y) \<in> E \<and> y \<in> U - {v} \<and> (y, w) \<in> (inside E (U - {v}))\<^sup>*)"
  using assms
proof (induction rule: rtrancl_induct)
  case base
  then show ?case by auto
next
  case (step w w')
  have e: "(w, w') \<in> E" "w \<in> U" "w' \<in> U" using step.hyps(2) by (auto simp: inside_def)
  show ?case
  proof (cases "w' = v")
    case True
    then show ?thesis by simp
  next
    case nv': False
    show ?thesis
    proof (cases "w = v")
      case True
      then have "(v, w') \<in> E \<and> w' \<in> U - {v} \<and> (w', w') \<in> (inside E (U - {v}))\<^sup>*"
        using e nv' by simp
      then show ?thesis by blast
    next
      case False
      then have ed: "(w, w') \<in> inside E (U - {v})"
        using e nv' by (simp add: inside_def)
      from step.IH False consider
        "x \<noteq> v" "(x, w) \<in> (inside E (U - {v}))\<^sup>*"
        | y where "(v, y) \<in> E" "y \<in> U - {v}" "(y, w) \<in> (inside E (U - {v}))\<^sup>*"
        by blast
      then show ?thesis
      proof cases
        case 1
        then show ?thesis using ed by (meson rtrancl.rtrancl_into_rtrancl)
      next
        case 2
        then have "(y, w') \<in> (inside E (U - {v}))\<^sup>*"
          using ed by (meson rtrancl.rtrancl_into_rtrancl)
        then show ?thesis using 2 by blast
      qed
    qed
  qed
qed

lemma plain_bfs_reach:
  "set (plain_bfs adj U q)
   = {w. \<exists>x \<in> set q \<inter> set U. (x, w) \<in> (inside (adj_rel adj) (set U))\<^sup>*}"
proof (induction adj U q rule: plain_bfs.induct)
  case (1 adj unseen)
  then show ?case by (simp add: plain_bfs.simps)
next
  case (2 adj unseen v queue)
  let ?E = "adj_rel adj"
  show ?case
  proof (cases "v \<in> set unseen")
    case False
    then show ?thesis using 2 by (auto simp: plain_bfs.simps)
  next
    case True
    let ?U' = "set unseen - {v}"
    have IH: "set (plain_bfs adj (removeAll v unseen) (queue @ adj v))
              = {w. \<exists>x \<in> set (queue @ adj v) \<inter> ?U'. (x, w) \<in> (inside ?E ?U')\<^sup>*}"
      using 2(1) [OF True] by simp
    have sub: "(inside ?E ?U')\<^sup>* \<subseteq> (inside ?E (set unseen))\<^sup>*"
      by (rule rtrancl_mono) (auto simp: inside_def)
    have "{w. \<exists>x \<in> set (v # queue) \<inter> set unseen. (x, w) \<in> (inside ?E (set unseen))\<^sup>*}
          = insert v {w. \<exists>x \<in> set (queue @ adj v) \<inter> ?U'. (x, w) \<in> (inside ?E ?U')\<^sup>*}"
      (is "?L = insert v ?R")
    proof (intro equalityI subsetI)
      fix w assume "w \<in> ?L"
      then obtain x where x: "x \<in> set (v # queue)" "x \<in> set unseen"
        "(x, w) \<in> (inside ?E (set unseen))\<^sup>*" by blast
      from path_avoiding [OF x(3), of v] consider "w = v"
        | "x \<noteq> v" "(x, w) \<in> (inside ?E ?U')\<^sup>*"
        | y where "(v, y) \<in> ?E" "y \<in> ?U'" "(y, w) \<in> (inside ?E ?U')\<^sup>*"
        by blast
      then show "w \<in> insert v ?R"
      proof cases
        case 1 then show ?thesis by simp
      next
        case 2
        then have "x \<in> set (queue @ adj v) \<inter> ?U'" using x by auto
        then show ?thesis using 2 by blast
      next
        case 3
        then have "y \<in> set (queue @ adj v) \<inter> ?U'" by (auto simp: adj_rel_def)
        then show ?thesis using 3 by blast
      qed
    next
      fix w assume "w \<in> insert v ?R"
      then consider "w = v" | "w \<in> ?R" by blast
      then show "w \<in> ?L"
      proof cases
        case 1 then show ?thesis using True by auto
      next
        case 2
        then obtain x where x: "x \<in> set (queue @ adj v)" "x \<in> ?U'"
          "(x, w) \<in> (inside ?E ?U')\<^sup>*" by blast
        have xw: "(x, w) \<in> (inside ?E (set unseen))\<^sup>*" using x(3) sub by blast
        show ?thesis
        proof (cases "x \<in> set queue")
          case True
          then show ?thesis using x xw by auto
        next
          case False
          then have "(v, x) \<in> inside ?E (set unseen)"
            using x \<open>v \<in> set unseen\<close> by (auto simp: adj_rel_def inside_def)
          then have "(v, w) \<in> (inside ?E (set unseen))\<^sup>*"
            using xw by (meson converse_rtrancl_into_rtrancl)
          then show ?thesis using \<open>v \<in> set unseen\<close> by auto
        qed
      qed
    qed
    then show ?thesis using True IH by (simp add: plain_bfs.simps)
  qed
qed


lemma plain_bfs_distinct:
  "distinct (plain_bfs adj U q) \<and> set (plain_bfs adj U q) \<subseteq> set U"
  by (induction adj U q rule: plain_bfs.induct) (auto simp: plain_bfs.simps)

lemma plain_bfs_start: "v \<in> set U \<Longrightarrow> v \<in> set (plain_bfs adj U [v])"
  by (simp add: plain_bfs.simps)

lemma closed_reach:
  assumes "E `` U \<subseteq> U" and "x \<in> U"
  shows "(x, w) \<in> (inside E U)\<^sup>* \<longleftrightarrow> (x, w) \<in> E\<^sup>*"
proof
  assume "(x, w) \<in> (inside E U)\<^sup>*"
  moreover have "inside E U \<subseteq> E" by (auto simp: inside_def)
  ultimately show "(x, w) \<in> E\<^sup>*" using rtrancl_mono by blast
next
  assume "(x, w) \<in> E\<^sup>*"
  then have "(x, w) \<in> (inside E U)\<^sup>* \<and> w \<in> U"
  proof (induction rule: rtrancl_induct)
    case base
    then show ?case using assms(2) by simp
  next
    case (step y z)
    then have "z \<in> U" using assms(1) by blast
    then have "(y, z) \<in> inside E U" using step by (simp add: inside_def)
    then show ?case using step \<open>z \<in> U\<close> by (meson rtrancl.rtrancl_into_rtrancl)
  qed
  then show "(x, w) \<in> (inside E U)\<^sup>*" by simp
qed

lemma component_of_start:
  assumes "adj_rel adj `` set U \<subseteq> set U" and "v \<in> set U"
  shows "set (plain_bfs adj U [v]) = (adj_rel adj)\<^sup>* `` {v}"
proof -
  have "set (plain_bfs adj U [v]) = {w. (v, w) \<in> (inside (adj_rel adj) (set U))\<^sup>*}"
    using assms(2) by (auto simp: plain_bfs_reach)
  also have "\<dots> = {w. (v, w) \<in> (adj_rel adj)\<^sup>*}"
    using closed_reach [OF assms] by simp
  finally show ?thesis by auto
qed

lemma connected_components_subset:
  "c \<in> set (connected_components adj U) \<Longrightarrow> set c \<subseteq> set U"
proof (induction adj U arbitrary: c rule: connected_components.induct)
  case (1 adj)
  then show ?case by (simp add: connected_components.simps)
next
  case (2 adj v unseen)
  define c0 where "c0 = plain_bfs adj (v # unseen) [v]"
  define U' where "U' = filter (\<lambda>u. u \<notin> set c0) unseen"
  have cc: "connected_components adj (v # unseen) = c0 # connected_components adj U'"
    by (simp add: connected_components.simps Let_def c0_def U'_def)
  have c0: "set c0 \<subseteq> set (v # unseen)" using plain_bfs_distinct c0_def by blast
  from 2(2) cc consider "c = c0" | "c \<in> set (connected_components adj U')" by auto
  then show ?case
  proof cases
    case 1 then show ?thesis using c0 by simp
  next
    case 2
    then have "set c \<subseteq> set U'" using "2.IH" [OF c0_def] U'_def by blast
    then show ?thesis by (auto simp: U'_def)
  qed
qed

lemma connected_components_correct:
  assumes "sym (adj_rel adj)" and "adj_rel adj `` set U \<subseteq> set U"
  shows "set ` set (connected_components adj U) = {(adj_rel adj)\<^sup>* `` {v} | v. v \<in> set U}
       \<and> pairwise_disjoint (connected_components adj U)
       \<and> [] \<notin> set (connected_components adj U)
       \<and> \<Union> (set ` set (connected_components adj U)) = set U"
  using assms
proof (induction adj U rule: connected_components.induct)
  case (1 adj)
  then show ?case by (simp add: connected_components.simps)
next
  case (2 adj v unseen)
  let ?E = "adj_rel adj"
  define c where "c = plain_bfs adj (v # unseen) [v]"
  define U' where "U' = filter (\<lambda>u. u \<notin> set c) unseen"
  have cc: "connected_components adj (v # unseen) = c # connected_components adj U'"
    by (simp add: connected_components.simps Let_def c_def U'_def)
  have symE: "sym (?E\<^sup>*)" using "2.prems"(1) by (simp add: sym_rtrancl)
  have c: "set c = ?E\<^sup>* `` {v}"
    unfolding c_def using component_of_start [OF "2.prems"(2), of v] by simp
  have vc: "v \<in> set c" using c by simp
  have same: "\<And>u. u \<in> set c \<Longrightarrow> ?E\<^sup>* `` {u} = set c"
  proof -
    fix u assume "u \<in> set c"
    then have vu: "(v, u) \<in> ?E\<^sup>*" using c by simp
    then have uv: "(u, v) \<in> ?E\<^sup>*" using symE by (meson symD)
    show "?E\<^sup>* `` {u} = set c"
      unfolding c using vu uv by (auto intro: rtrancl_trans)
  qed
  have closed': "?E `` set U' \<subseteq> set U'"
  proof
    fix w assume "w \<in> ?E `` set U'"
    then obtain u where u: "u \<in> set U'" "(u, w) \<in> ?E" by blast
    then have uU: "u \<in> set unseen" "u \<notin> set c" by (simp_all add: U'_def)
    have wU: "w \<in> set (v # unseen)" using "2.prems"(2) u(2) uU(1) by auto
    have "w \<notin> set c"
    proof
      assume "w \<in> set c"
      then have "(v, w) \<in> ?E\<^sup>*" using c by simp
      moreover have "(w, u) \<in> ?E" using u(2) "2.prems"(1) by (meson symD)
      ultimately have "(v, u) \<in> ?E\<^sup>*" by (meson rtrancl.rtrancl_into_rtrancl)
      then show False using uU(2) c by simp
    qed
    then show "w \<in> set U'" using wU vc by (auto simp: U'_def)
  qed
  note IH = "2.IH" [OF c_def, folded U'_def, OF "2.prems"(1) closed']
  have U'set: "set U' = set unseen - set c" by (auto simp: U'_def)
  have 1: "set ` set (connected_components adj (v # unseen))
           = {?E\<^sup>* `` {u} | u. u \<in> set (v # unseen)}"
  proof (intro equalityI subsetI)
    fix S assume "S \<in> set ` set (connected_components adj (v # unseen))"
    then consider "S = set c" | "S \<in> set ` set (connected_components adj U')"
      using cc by auto
    then show "S \<in> {?E\<^sup>* `` {u} | u. u \<in> set (v # unseen)}"
    proof cases
      case 1 then show ?thesis using c by auto
    next
      case 2
      then have "S \<in> {?E\<^sup>* `` {u} | u. u \<in> set U'}" using IH by simp
      then show ?thesis using U'set by auto
    qed
  next
    fix S assume "S \<in> {?E\<^sup>* `` {u} | u. u \<in> set (v # unseen)}"
    then obtain u where u: "S = ?E\<^sup>* `` {u}" "u \<in> set (v # unseen)" by blast
    show "S \<in> set ` set (connected_components adj (v # unseen))"
    proof (cases "u \<in> set c")
      case True
      then show ?thesis using same [OF True] u(1) cc by simp
    next
      case False
      then have "u \<in> set U'" using u(2) vc U'set by auto
      then have "S \<in> set ` set (connected_components adj U')" using IH u(1) by blast
      then show ?thesis using cc by auto
    qed
  qed
  have 2: "pairwise_disjoint (connected_components adj (v # unseen))"
  proof -
    have "\<forall>c' \<in> set (connected_components adj U'). set c \<inter> set c' = {}"
      using connected_components_subset [of _ adj U'] U'set by blast
    then show ?thesis using IH cc by simp
  qed
  have 3: "[] \<notin> set (connected_components adj (v # unseen))"
    using IH cc vc by auto
  have 4: "\<Union> (set ` set (connected_components adj (v # unseen))) = set (v # unseen)"
  proof -
    have "\<Union> (set ` set (connected_components adj (v # unseen)))
          = set c \<union> \<Union> (set ` set (connected_components adj U'))"
      by (simp add: cc)
    then have "\<Union> (set ` set (connected_components adj (v # unseen))) = set c \<union> set U'"
      using IH [THEN conjunct2, THEN conjunct2, THEN conjunct2] by simp
    moreover have "set c \<subseteq> set (v # unseen)" using plain_bfs_distinct c_def by blast
    ultimately show ?thesis using vc U'set by auto
  qed
  show ?case using 1 2 3 4 by blast
qed


lemma adj_rel_merge_adj:
  "adj_rel (merge_adj es) = {(u, v). (u, v) \<in> set es \<or> (v, u) \<in> set es}"
  by (auto simp: adj_rel_def merge_adj_def split: if_splits)

lemma merged_edges_pairs:
  assumes "merged_edges G = Inr es"
  shows "adj_rel (merge_adj es) = merged_pairs G"
proof -
  have k: "\<forall>e \<in> set (rag_edges G). map_of (snd e) ''merged'' \<noteq> None"
    and es: "es = map fst (filter (\<lambda>(e, d). map_of d ''merged'' \<noteq> Some 0) (rag_edges G))"
    using assms by (auto simp: merged_edges_def list_ex_iff split: if_splits)
  show ?thesis
    unfolding adj_rel_merge_adj merged_pairs_def es using k
    by (auto simp: is_edge_def) force+
qed

lemma sym_merged_pairs: "sym (merged_pairs G)"
  by (auto simp: sym_def merged_pairs_def is_edge_def)

lemma merged_pairs_nodes:
  assumes "wf_rag G" and "(u, v) \<in> merged_pairs G"
  shows "u \<in> set (nodes G) \<and> v \<in> set (nodes G)"
  using assms by (auto simp: wf_rag_def merged_pairs_def is_edge_def)

lemma get_connected_components_correct:
  assumes "wf_rag G" and "\<And>c. set (listing c) = set c"
    and "get_connected_components listing G = Inr components"
  shows "set ` set components = {(merged_pairs G)\<^sup>* `` {v} | v. v \<in> set (nodes G)}"
    and "[] \<notin> set components"
    and "\<Union> (set ` set components) = set (nodes G)"
    and "pairwise_disjoint components"
proof -
  obtain es where es: "merged_edges G = Inr es"
    and comps: "components = map listing (connected_components (merge_adj es) (nodes G))"
    using assms(3) by (auto simp: get_connected_components_def split: sum.splits)
  let ?cs = "connected_components (merge_adj es) (nodes G)"
  have E: "adj_rel (merge_adj es) = merged_pairs G" using merged_edges_pairs [OF es] .
  have closed: "adj_rel (merge_adj es) `` set (nodes G) \<subseteq> set (nodes G)"
    unfolding E using merged_pairs_nodes [OF assms(1)] by blast
  note cc = connected_components_correct [of "merge_adj es" "nodes G", unfolded E,
      OF sym_merged_pairs closed [unfolded E]]
  have sets: "set ` set components = set ` set ?cs"
    unfolding comps using assms(2) by (auto simp: image_iff)
  show "set ` set components = {(merged_pairs G)\<^sup>* `` {v} | v. v \<in> set (nodes G)}"
    using cc [THEN conjunct1] by (simp only: sets)
  show "[] \<notin> set components"
  proof
    assume "[] \<in> set components"
    then have "{} \<in> set ` set components" by force
    then have "{} \<in> set ` set ?cs" using sets by simp
    then show False using cc [THEN conjunct2, THEN conjunct2, THEN conjunct1] by auto
  qed
  show "\<Union> (set ` set components) = set (nodes G)"
    using cc [THEN conjunct2, THEN conjunct2, THEN conjunct2] by (simp only: sets)
  have "pairwise_disjoint (map listing cs)" if "pairwise_disjoint cs" for cs
    using that assms(2) by (induction cs) auto
  then show "pairwise_disjoint components"
    using cc [THEN conjunct2, THEN conjunct1] comps by simp
qed

text \<open>
  C6. For a RAG whose edges join nodes of the RAG, the components that
  \<open>get_connected_components\<close> returns are, as sets, exactly the classes of the nodes
  under the reflexive and transitive closure of the merged edges (taken in both
  directions): every node of the RAG lies in one, also a node without merged edges. So when
  \<open>(a, b)\<close> and \<open>(b, c)\<close> are merged, one component holds \<open>a\<close>, \<open>b\<close> and \<open>c\<close>, whether
  or not there is an edge \<open>(a, c)\<close>.
\<close>

theorem merged_components:
  assumes "wf_rag G" and "\<And>c. set (listing c) = set c"
    and "get_connected_components listing G = Inr components"
  shows "set ` set components = {(merged_pairs G)\<^sup>* `` {v} | v. v \<in> set (nodes G)}
       \<and> (\<forall>a b c. (a, b) \<in> merged_pairs G \<and> (b, c) \<in> merged_pairs G \<longrightarrow>
            (\<exists>comp \<in> set components. a \<in> set comp \<and> b \<in> set comp \<and> c \<in> set comp))"
proof -
  note cc = get_connected_components_correct [OF assms]
  have "\<exists>comp \<in> set components. a \<in> set comp \<and> b \<in> set comp \<and> c \<in> set comp"
    if ab: "(a, b) \<in> merged_pairs G" and bc: "(b, c) \<in> merged_pairs G" for a b c
  proof -
    have "a \<in> set (nodes G)" using merged_pairs_nodes [OF assms(1) ab] by simp
    then have "(merged_pairs G)\<^sup>* `` {a} \<in> set ` set components" using cc(1) by blast
    then obtain comp where comp: "comp \<in> set components"
      "set comp = (merged_pairs G)\<^sup>* `` {a}" by auto
    have "(a, b) \<in> (merged_pairs G)\<^sup>*" "(a, c) \<in> (merged_pairs G)\<^sup>*"
      using ab bc by auto
    then show ?thesis using comp by auto
  qed
  then show ?thesis using cc(1) by blast
qed

lemma rag_ex_components:
  "get_connected_components rev rag_ex = Inr [[3, 2, 1], [4]]"
  "edge_data rag_ex 1 3 = None"
  by code_simp+

lemma rag_ex_wf: "wf_rag rag_ex"
  by code_simp

lemma rag_ex_merged: "(1, 2) \<in> merged_pairs rag_ex" "(2, 3) \<in> merged_pairs rag_ex"
  by (simp_all add: merged_pairs_def rag_ex_def is_edge_def)

theorem merged_components_witness:
  "get_connected_components rev rag_ex = Inr [[3, 2, 1], [4]]
   \<and> edge_data rag_ex 1 3 = None
   \<and> set ` set [[3, 2, 1], [4 :: nat]]
       = {(merged_pairs rag_ex)\<^sup>* `` {v} | v. v \<in> set (nodes rag_ex)}
   \<and> (\<exists>comp \<in> set [[3, 2, 1], [4 :: nat]]. 1 \<in> set comp \<and> 2 \<in> set comp \<and> 3 \<in> set comp)"
  using merged_components [OF rag_ex_wf set_rev rag_ex_components(1)] rag_ex_components
    rag_ex_merged
  by simp

section \<open>Relabelling after a contraction\<close>

lemma relabel_component_nth:
  "length (relabel_component vm c l) = length vm \<and>
   (\<forall>x < length vm. relabel_component vm c l ! x = (if x \<in> set c then l else vm ! x))"
  unfolding relabel_component_def
proof (induction c arbitrary: vm)
  case Nil
  then show ?case by simp
next
  case (Cons c0 c)
  define vm1 where "vm1 = (if c0 < length vm then vm[c0 := l] else vm)"
  have l1: "length vm1 = length vm" by (simp add: vm1_def)
  have n1: "\<forall>x < length vm. vm1 ! x = (if x = c0 then l else vm ! x)"
    by (auto simp: vm1_def)
  show ?case
    using Cons [of vm1] l1 n1 by (auto simp: vm1_def [symmetric])
qed

lemma relabel_fold:
  assumes "pairwise_disjoint cs"
  shows "length (fold (\<lambda>(c, l) vm. relabel_component vm c l) (zip cs (map last cs)) vm)
           = length vm \<and>
         (\<forall>x < length vm.
            (\<forall>c \<in> set cs. x \<in> set c \<longrightarrow>
               fold (\<lambda>(c, l) vm. relabel_component vm c l) (zip cs (map last cs)) vm ! x = last c)
          \<and> (x \<notin> \<Union> (set ` set cs) \<longrightarrow>
               fold (\<lambda>(c, l) vm. relabel_component vm c l) (zip cs (map last cs)) vm ! x = vm ! x))"
  using assms
proof (induction cs arbitrary: vm)
  case Nil
  then show ?case by simp
next
  case (Cons c cs)
  let ?f = "\<lambda>(c, l) vm. relabel_component vm c l"
  define vm1 where "vm1 = relabel_component vm c (last c)"
  note rc = relabel_component_nth [of vm c "last c", folded vm1_def]
  have pd: "pairwise_disjoint cs" and dj: "\<forall>c' \<in> set cs. set c \<inter> set c' = {}"
    using Cons.prems by simp_all
  note IH = Cons.IH [OF pd, of vm1]
  have f: "fold ?f (zip (c # cs) (map last (c # cs))) vm = fold ?f (zip cs (map last cs)) vm1"
    by (simp add: vm1_def)
  show ?case
    unfolding f
  proof (intro conjI allI impI ballI)
    show "length (fold ?f (zip cs (map last cs)) vm1) = length vm" using IH rc by simp
  next
    fix x c' assume x: "x < length vm" and c': "c' \<in> set (c # cs)" and xc: "x \<in> set c'"
    have x1: "x < length vm1" using x rc by simp
    show "fold ?f (zip cs (map last cs)) vm1 ! x = last c'"
    proof (cases "c' \<in> set cs")
      case True
      then show ?thesis using IH x1 xc by blast
    next
      case False
      then have cc: "c' = c" using c' by simp
      then have "x \<notin> \<Union> (set ` set cs)" using dj xc by auto
      then have "fold ?f (zip cs (map last cs)) vm1 ! x = vm1 ! x" using IH x1 by blast
      then show ?thesis using rc x xc cc by simp
    qed
  next
    fix x assume x: "x < length vm" and nx: "x \<notin> \<Union> (set ` set (c # cs))"
    have x1: "x < length vm1" using x rc by simp
    have "fold ?f (zip cs (map last cs)) vm1 ! x = vm1 ! x" using IH x1 nx by simp
    then show "fold ?f (zip cs (map last cs)) vm1 ! x = vm ! x" using rc x nx by simp
  qed
qed

lemma contract_components_reps:
  "contract_components G cs = Inr (G', reps) \<Longrightarrow> reps = map last cs"
  by (induction cs arbitrary: G G' reps) (auto split: sum.splits if_splits)

lemma relabel_array_nth:
  assumes "pairwise_disjoint cs" and "relabel_array array cs (map last cs) = Inr array'"
  shows "length array' = length array \<and>
         (\<forall>i < length array.
            (\<forall>c \<in> set cs. array ! i \<in> set c \<longrightarrow> array' ! i = last c)
          \<and> (array ! i \<notin> \<Union> (set ` set cs) \<longrightarrow> array' ! i = array ! i))"
proof -
  let ?vm = "[0..<Max (set array) + 1]"
  let ?vm' = "fold (\<lambda>(c, l) vm. relabel_component vm c l) (zip cs (map last cs)) ?vm"
  have ne: "array \<noteq> []" and a': "array' = map (\<lambda>x. ?vm' ! x) array"
    using assms(2) by (auto simp: relabel_array_def Let_def split: if_splits)
  note rf = relabel_fold [OF assms(1), of ?vm]
  have inr: "\<And>i. i < length array \<Longrightarrow> array ! i < length ?vm"
    by (simp add: less_Suc_eq_le)
  show ?thesis
  proof (intro conjI allI impI ballI)
    show "length array' = length array" by (simp add: a')
  next
    fix i c assume i: "i < length array" and c: "c \<in> set cs" "array ! i \<in> set c"
    then show "array' ! i = last c" using rf inr [OF i] by (simp add: a')
  next
    fix i assume i: "i < length array" and n: "array ! i \<notin> \<Union> (set ` set cs)"
    have "?vm' ! (array ! i) = ?vm ! (array ! i)" using rf inr [OF i] n by blast
    also have "\<dots> = array ! i" using inr [OF i] by (metis add_0 nth_upt diff_zero length_upt)
    finally show "array' ! i = array ! i" using i by (simp add: a')
  qed
qed

text \<open>
  C7, as amended. After \<open>contract_merged_nodes\<close> with a label array, every voxel whose
  label is a node of the RAG carries the representative (the last node) of the component
  of that node, and every voxel whose label is not a node of the RAG keeps its label.
\<close>

theorem contraction_relabels:
  assumes "wf_rag G" and "\<And>c. set (listing c) = set c"
    and "contract_merged_nodes listing G (Some array) = Inr (G', Some array')"
  shows "\<exists>components. get_connected_components listing G = Inr components
           \<and> length array' = length array
           \<and> (\<forall>i < length array.
                 (\<forall>c \<in> set components. array ! i \<in> set c \<longrightarrow> array' ! i = last c)
               \<and> (array ! i \<notin> set (nodes G) \<longrightarrow> array' ! i = array ! i)
               \<and> (array ! i \<in> set (nodes G) \<longrightarrow> array' ! i \<in> last ` set components))"
proof -
  obtain components G1 reps where
    gc: "get_connected_components listing G = Inr components"
    and cn: "contract_nodes G components = Inr (G1, reps)"
    and ra: "relabel_array array components reps = Inr array'"
    using assms(3)
    by (auto simp: contract_merged_nodes_def split: sum.splits prod.splits)
  have reps: "reps = map last components"
    using cn contract_components_reps by (simp add: contract_nodes_def)
  note cc = get_connected_components_correct [OF assms(1,2) gc]
  note rn = relabel_array_nth [OF cc(4) ra [unfolded reps]]
  have "\<forall>i < length array.
          (\<forall>c \<in> set components. array ! i \<in> set c \<longrightarrow> array' ! i = last c)
        \<and> (array ! i \<notin> set (nodes G) \<longrightarrow> array' ! i = array ! i)
        \<and> (array ! i \<in> set (nodes G) \<longrightarrow> array' ! i \<in> last ` set components)"
  proof (intro allI impI conjI ballI)
    fix i c assume "i < length array" "c \<in> set components" "array ! i \<in> set c"
    then show "array' ! i = last c" using rn by blast
  next
    fix i assume "i < length array" "array ! i \<notin> set (nodes G)"
    then show "array' ! i = array ! i" using rn cc(3) by simp
  next
    fix i assume i: "i < length array" and "array ! i \<in> set (nodes G)"
    then obtain c where "c \<in> set components" "array ! i \<in> set c" using cc(3) by blast
    then show "array' ! i \<in> last ` set components" using rn i by blast
  qed
  then show ?thesis using gc rn by blast
qed


lemma contract_rag_ex:
  "contract_merged_nodes rev rag_ex (Some [0, 1, 2, 3, 4, 1])
   = Inr (\<lparr>rag_nodes = [(1, Some [3, 2, 1]), (4, Some [4])],
            rag_edges = [((4, 1), [(''merged'', 0), (''agglomerated'', 0)])]\<rparr>,
          Some [0, 1, 1, 1, 4, 1])"
  by code_simp

theorem contraction_relabels_witness:
  "\<exists>components. get_connected_components rev rag_ex = Inr components
     \<and> length [0, 1, 1, 1, 4, 1 :: nat] = length [0, 1, 2, 3, 4, 1 :: nat]
     \<and> (\<forall>i < length [0, 1, 2, 3, 4, 1 :: nat].
           (\<forall>c \<in> set components. [0, 1, 2, 3, 4, 1 :: nat] ! i \<in> set c \<longrightarrow>
              [0, 1, 1, 1, 4, 1 :: nat] ! i = last c)
         \<and> ([0, 1, 2, 3, 4, 1 :: nat] ! i \<notin> set (nodes rag_ex) \<longrightarrow>
              [0, 1, 1, 1, 4, 1 :: nat] ! i = [0, 1, 2, 3, 4, 1 :: nat] ! i)
         \<and> ([0, 1, 2, 3, 4, 1 :: nat] ! i \<in> set (nodes rag_ex) \<longrightarrow>
              [0, 1, 1, 1, 4, 1 :: nat] ! i \<in> last ` set components))"
  using contraction_relabels [OF rag_ex_wf set_rev contract_rag_ex] .

text \<open>
  The claim as stated fails for a label that is not a node of the RAG, such as the
  background 0: the first voxel keeps the label 0, which is no representative.
\<close>

theorem background_label_is_no_representative:
  "map_sum id snd (contract_merged_nodes rev rag_ex (Some [0, 1, 2, 3, 4, 1]))
     = Inr (Some [0, 1, 1, 1, 4, 1])
   \<and> get_connected_components rev rag_ex = Inr [[3, 2, 1], [4]]
   \<and> [0, 1, 1, 1, 4, 1 :: nat] ! 0 \<notin> set (map last [[3, 2, 1], [4]])"
  by code_simp

section \<open>Edges after a contraction\<close>

text \<open>
  After \<open>merge_nodes(src, dst)\<close> with the weight function of \<open>__contract_nodes\<close>, the
  edge between \<open>dst\<close> and any former neighbor of \<open>src\<close> or \<open>dst\<close> has \<open>merged\<close> and
  \<open>agglomerated\<close> equal to 0, whatever they were.
\<close>

lemma dict_update_default:
  "flags_reset (dict_update d (default_attributes G src dst n))"
  by (simp add: flags_reset_def dict_update_def default_attributes_def update_conv')

lemma default_flags_reset: "flags_reset (default_attributes G src dst n)"
  by (simp add: flags_reset_def default_attributes_def)

lemma rag_edges_add_node [simp]: "rag_edges (add_node G n) = rag_edges G"
  by (simp add: add_node_def)

lemma rag_edges_add_edge:
  "rag_edges (add_edge G u v a) =
     (if list_ex (is_edge u v) (rag_edges G)
      then map (\<lambda>e. if is_edge u v e then (fst e, dict_update (snd e) a) else e) (rag_edges G)
      else rag_edges G @ [((u, v), a)])"
  by (simp add: add_edge_def Let_def)

lemma is_edge_fst [simp]: "is_edge u v (fst e, d) = is_edge u v e"
  by (simp add: is_edge_def)

lemma add_edge_updates:
  assumes "list_ex (is_edge m dst) (rag_edges G)"
  shows "set (rag_edges (add_edge G m dst (default_attributes G src dst m)))
         = (\<lambda>e. if is_edge m dst e
                 then (fst e, dict_update (snd e) (default_attributes G src dst m)) else e)
           ` set (rag_edges G)"
  using assms by (simp add: rag_edges_add_edge)

lemma add_edge_appends:
  assumes "\<not> list_ex (is_edge m dst) (rag_edges G)"
  shows "set (rag_edges (add_edge G m dst (default_attributes G src dst m)))
         = insert ((m, dst), default_attributes G src dst m) (set (rag_edges G))"
  using assms by (simp add: rag_edges_add_edge)

lemma add_edge_keeps_edge:
  assumes "e \<in> set (rag_edges G)" and "is_edge n dst e"
  shows "\<exists>e' \<in> set (rag_edges (add_edge G m dst (default_attributes G src dst m))).
           is_edge n dst e'"
proof (cases "list_ex (is_edge m dst) (rag_edges G)")
  case True
  let ?f = "\<lambda>e. if is_edge m dst e
                 then (fst e, dict_update (snd e) (default_attributes G src dst m)) else e"
  have "?f e \<in> set (rag_edges (add_edge G m dst (default_attributes G src dst m)))"
    using assms(1) add_edge_updates [OF True] by blast
  moreover have "is_edge n dst (?f e)" using assms(2) by simp
  ultimately show ?thesis by blast
next
  case False
  then show ?thesis using assms add_edge_appends [OF False] by blast
qed

lemma add_edge_flags:
  assumes "e' \<in> set (rag_edges (add_edge G m dst (default_attributes G src dst m)))"
  shows "flags_reset (snd e') \<or> e' \<in> set (rag_edges G) \<and> \<not> is_edge m dst e'"
proof (cases "list_ex (is_edge m dst) (rag_edges G)")
  case True
  then obtain e where e: "e \<in> set (rag_edges G)"
    "e' = (if is_edge m dst e
           then (fst e, dict_update (snd e) (default_attributes G src dst m)) else e)"
    using assms add_edge_updates [OF True] by blast
  then show ?thesis by (cases "is_edge m dst e") (simp_all add: dict_update_default)
next
  case False
  then have "e' = ((m, dst), default_attributes G src dst m) \<or> e' \<in> set (rag_edges G)"
    using assms add_edge_appends [OF False] by blast
  then show ?thesis using False by (auto simp: default_flags_reset list_ex_iff)
qed

lemma add_edge_establishes:
  "reset_between (add_edge G n dst (default_attributes G src dst n)) n dst"
proof -
  let ?G' = "add_edge G n dst (default_attributes G src dst n)"
  have "\<exists>e \<in> set (rag_edges ?G'). is_edge n dst e"
  proof (cases "list_ex (is_edge n dst) (rag_edges G)")
    case True
    then obtain e where "e \<in> set (rag_edges G)" "is_edge n dst e" by (auto simp: list_ex_iff)
    then show ?thesis by (rule add_edge_keeps_edge)
  next
    case False
    have "is_edge n dst ((n, dst), default_attributes G src dst n)" by (simp add: is_edge_def)
    then show ?thesis using add_edge_appends [OF False] by blast
  qed
  moreover have "flags_reset (snd e)" if "e \<in> set (rag_edges ?G')" "is_edge n dst e" for e
    using add_edge_flags [OF that(1)] that(2) by blast
  ultimately show ?thesis by (simp add: reset_between_def)
qed

lemma add_edge_preserves:
  assumes "reset_between G n dst"
  shows "reset_between (add_edge G m dst (default_attributes G src dst m)) n dst"
proof -
  let ?G' = "add_edge G m dst (default_attributes G src dst m)"
  obtain e where "e \<in> set (rag_edges G)" "is_edge n dst e"
    using assms by (auto simp: reset_between_def)
  then have "\<exists>e \<in> set (rag_edges ?G'). is_edge n dst e" by (rule add_edge_keeps_edge)
  moreover have "flags_reset (snd e)" if "e \<in> set (rag_edges ?G')" "is_edge n dst e" for e
    using add_edge_flags [OF that(1)] that(2) assms by (auto simp: reset_between_def)
  ultimately show ?thesis by (simp add: reset_between_def)
qed

lemma fold_add_edge_preserves:
  "reset_between G n dst \<Longrightarrow>
   reset_between (fold (\<lambda>m H. add_edge H m dst (default_attributes H src dst m)) ms G) n dst"
  by (induction ms arbitrary: G) (simp_all add: add_edge_preserves)

lemma fold_add_edge_establishes:
  "n \<in> set ms \<Longrightarrow>
   reset_between (fold (\<lambda>m H. add_edge H m dst (default_attributes H src dst m)) ms G) n dst"
proof (induction ms arbitrary: G)
  case Nil
  then show ?case by simp
next
  case (Cons m ms)
  show ?case
  proof (cases "n = m")
    case True
    then show ?thesis
      using fold_add_edge_preserves [OF add_edge_establishes] by simp
  next
    case False
    then show ?thesis using Cons by simp
  qed
qed

lemma merge_nodes_resets_flags:
  assumes "merge_nodes G src dst default_attributes = Inr G'" and "src \<noteq> dst"
    and "n \<in> set (neighbors G src) \<union> set (neighbors G dst)" and "n \<noteq> src" and "n \<noteq> dst"
  shows "\<exists>d. edge_data G' n dst = Some d \<and> map_of d ''merged'' = Some 0
             \<and> map_of d ''agglomerated'' = Some 0"
proof -
  define nbrs where
    "nbrs = filter (\<lambda>n. n \<noteq> src \<and> n \<noteq> dst) (remdups (neighbors G src @ neighbors G dst))"
  define G1 where
    "G1 = fold (\<lambda>m H. add_edge H m dst (default_attributes H src dst m)) nbrs G"
  have n: "n \<in> set nbrs" using assms(3-5) by (simp add: nbrs_def)
  have r1: "reset_between G1 n dst" unfolding G1_def by (rule fold_add_edge_establishes [OF n])
  have ed: "rag_edges G' = filter (\<lambda>((a, b), d). a \<noteq> src \<and> b \<noteq> src) (rag_edges G1)"
    using assms(1)
    by (auto simp: merge_nodes_def Let_def remove_node_def nbrs_def [symmetric]
        G1_def [symmetric] split: if_splits sum.splits)
  have keep: "e \<in> set (rag_edges G')" if "e \<in> set (rag_edges G1)" "is_edge n dst e" for e
  proof -
    have "fst (fst e) \<noteq> src \<and> snd (fst e) \<noteq> src"
      using that(2) assms(2,4) by (auto simp: is_edge_def)
    then show ?thesis using that(1) by (simp add: ed case_prod_unfold)
  qed
  have sub: "set (rag_edges G') \<subseteq> set (rag_edges G1)" by (auto simp: ed)
  have r: "reset_between G' n dst"
    unfolding reset_between_def
  proof
    obtain e where "e \<in> set (rag_edges G1)" "is_edge n dst e"
      using r1 by (auto simp: reset_between_def)
    then show "\<exists>e \<in> set (rag_edges G'). is_edge n dst e" using keep by blast
  next
    show "\<forall>e \<in> set (rag_edges G'). is_edge n dst e \<longrightarrow> flags_reset (snd e)"
      using r1 sub by (auto simp: reset_between_def)
  qed
  then obtain e where "find (is_edge n dst) (rag_edges G') = Some e"
    by (cases "find (is_edge n dst) (rag_edges G')") (auto simp: reset_between_def find_None_iff)
  moreover from this have "e \<in> set (rag_edges G')" "is_edge n dst e"
    by (auto simp: find_Some_iff)
  ultimately show ?thesis using r by (auto simp: edge_data_def reset_between_def flags_reset_def)
qed

text \<open>
  C8. The edge keeps the other attributes it had when it existed before: networkx's
  \<open>add_edge\<close> updates the dictionary of an existing edge. In \<open>rag_tri\<close> the nodes 1 and
  2 are contracted into 2; the edge \<open>(2, 3)\<close> that replaces \<open>(1, 3)\<close> and \<open>(2, 3)\<close> has
  \<open>merged\<close> and \<open>agglomerated\<close> reset to 0 and still carries the \<open>center_z\<close> of the old
  edge \<open>(2, 3)\<close>.
\<close>

theorem contracted_edge_keeps_center:
  "contract_merged_nodes (\<lambda>c. c) rag_tri None
     = Inr (\<lparr>rag_nodes = [(2, Some [1, 2]), (3, Some [3])],
              rag_edges = [((2, 3), [(''merged'', 0), (''agglomerated'', 0), (''center_z'', 7)])]\<rparr>,
            None)
   \<and> get_connected_components (\<lambda>c. c) rag_tri = Inr [[1, 2], [3]]
   \<and> edge_data rag_tri 2 3 = Some [(''merged'', 0), (''agglomerated'', 1), (''center_z'', 7)]
   \<and> edge_data rag_tri 1 3 = Some [(''merged'', 0), (''agglomerated'', 1), (''center_z'', 9)]"
  by code_simp

end
